theory Spec2Isabelle
  imports Complex_Main "HOL-Library.Word" "HOL-Library.Sublist"
begin

section \<open>The task store of todo.py\<close>

text \<open>
  The program keeps its tasks in \<open>self.tasks\<close>, a Python list of dicts, and rewrites
  the file \<open>self.filename\<close> after every change. The embedding follows the class
  \<open>TodoApp\<close> method by method. Three things that the methods read from outside are
  arguments of the model:
  \<^item> the clock: \<open>datetime.now().strftime("%Y-%m-%d %H:%M:%S")\<close> is the argument \<open>now\<close>;
  \<^item> the builtin \<open>int\<close> applied to the text of a task id is the argument \<open>to_int\<close>
    (\<open>None\<close> for \<open>ValueError\<close>); which digits and which lengths it accepts belongs to
    the interpreter, and no property below depends on it;
  \<^item> the file is the field \<open>tasks_file\<close> of the state: its bytes, or \<open>None\<close> while it
    does not exist.
\<close>

subsection \<open>Text and bytes\<close>

text \<open>
  A Python \<open>str\<close> is a sequence of code points, a file is a sequence of bytes.
\<close>

type_synonym pystr = "nat list"
type_synonym byte = "8 word"

definition lit :: "string \<Rightarrow> pystr" where
  "lit s = map of_char s"

text \<open>The characters that \<open>str.strip()\<close> removes (those with \<open>str.isspace\<close>).\<close>

definition py_isspace :: "nat \<Rightarrow> bool" where
  "py_isspace c \<longleftrightarrow>
     (0x09 \<le> c \<and> c \<le> 0x0D) \<or> (0x1C \<le> c \<and> c \<le> 0x20) \<or> c = 0x85 \<or> c = 0xA0 \<or>
     c = 0x1680 \<or> (0x2000 \<le> c \<and> c \<le> 0x200A) \<or> c = 0x2028 \<or> c = 0x2029 \<or>
     c = 0x202F \<or> c = 0x205F \<or> c = 0x3000"

definition strip :: "pystr \<Rightarrow> pystr" where
  "strip s = rev (dropWhile py_isspace (rev (dropWhile py_isspace s)))"

subsection \<open>Tasks and the application state\<close>

text \<open>
  A task is the dict built in \<open>add_task\<close>; \<open>mark_completed\<close> adds the key
  \<open>"completed_at"\<close>, so that field is optional.
\<close>

record task =
  id' :: int
  description :: pystr
  completed :: bool
  created_at :: pystr
  completed_at :: "pystr option"

record TodoApp =
  tasks :: "task list"
  tasks_file :: "byte list option"

text \<open>
  What a method prints and returns: \<open>Inr\<close> with the text it quotes in its success
  line before \<open>return True\<close>, \<open>Inl\<close> otherwise. The first three errors are the lines
  printed before \<open>return False\<close>; the fourth is the exception that \<open>print\<close> raises
  when the success line cannot be written to the console: the method has made and
  saved its change by then, nothing in it catches the exception, and it does not
  return.
  \<^item> \<open>ValidationError\<close>: "Error: Task description cannot be empty!"
  \<^item> \<open>InvalidArgument\<close>: "Error: Please enter a valid task ID (number)!"
  \<^item> \<open>NotFound n\<close>: "Error: No task found with ID n"
  \<^item> \<open>UnicodeEncodeError\<close>: raised by \<open>print\<close>
\<close>

datatype error = ValidationError | InvalidArgument | NotFound int | UnicodeEncodeError

subsection \<open>json.dump with indent=2, ensure_ascii=False\<close>

text \<open>
  \<open>json.dump\<close> writes the chunks of \<open>JSONEncoder.iterencode\<close> one after the other.
  With \<open>ensure_ascii=False\<close> a string is quoted and only the quote, the backslash and
  the characters below U+0020 are escaped.
\<close>

definition hex_digit :: "nat \<Rightarrow> nat" where
  "hex_digit d = (if d < 10 then 48 + d else 87 + d)"

definition escape_char :: "nat \<Rightarrow> pystr" where
  "escape_char c =
     (if c = 92 then [92, 92]
      else if c = 34 then [92, 34]
      else if c = 8 then [92, 98]
      else if c = 12 then [92, 102]
      else if c = 10 then [92, 110]
      else if c = 13 then [92, 114]
      else if c = 9 then [92, 116]
      else if c < 32 then [92, 117, 48, 48, hex_digit (c div 16), hex_digit (c mod 16)]
      else [c])"

definition encode_basestring :: "pystr \<Rightarrow> pystr" where
  "encode_basestring s = 34 # concat (map escape_char s) @ [34]"

fun digits :: "nat \<Rightarrow> pystr" where
  "digits n = (if n < 10 then [48 + n] else digits (n div 10) @ [48 + n mod 10])"

declare digits.simps [simp del]

definition intstr :: "int \<Rightarrow> pystr" where
  "intstr i = (if i < 0 then 45 # digits (nat (- i)) else digits (nat i))"

definition newline_indent :: "nat \<Rightarrow> pystr" where
  "newline_indent level = 10 # replicate (2 * level) 32"

definition item_separator :: "nat \<Rightarrow> pystr" where
  "item_separator level = 44 # newline_indent level"

text \<open>The chunks of one dict at indent level 1: its keys in insertion order.\<close>

definition iterencode_dict :: "task \<Rightarrow> pystr list" where
  "iterencode_dict t =
     [lit ''{'', newline_indent 2,
      encode_basestring (lit ''id''), lit '': '', intstr (id' t), item_separator 2,
      encode_basestring (lit ''description''), lit '': '',
        encode_basestring (description t), item_separator 2,
      encode_basestring (lit ''completed''), lit '': '',
        (if completed t then lit ''true'' else lit ''false''), item_separator 2,
      encode_basestring (lit ''created_at''), lit '': '', encode_basestring (created_at t)]
     @ (case completed_at t of
          None \<Rightarrow> []
        | Some c \<Rightarrow> [item_separator 2,
                     encode_basestring (lit ''completed_at''), lit '': '', encode_basestring c])
     @ [newline_indent 1, lit ''}'']"

fun iterencode_rest :: "task list \<Rightarrow> pystr list" where
  "iterencode_rest [] = [newline_indent 0, lit '']'']"
| "iterencode_rest (t # ts) = item_separator 1 # iterencode_dict t @ iterencode_rest ts"

fun iterencode_list :: "task list \<Rightarrow> pystr list" where
  "iterencode_list [] = [lit ''[]'']"
| "iterencode_list (t # ts) =
     (lit ''['' @ newline_indent 1) # iterencode_dict t @ iterencode_rest ts"

subsection \<open>Writing the file\<close>

text \<open>
  The file is opened with \<open>'w'\<close> and \<open>encoding='utf-8'\<close>: it is emptied, and \<open>write\<close>
  encodes one chunk at a time. A surrogate code point has no UTF-8 encoding: \<open>write\<close>
  raises \<open>UnicodeEncodeError\<close> for its chunk, \<open>save_tasks\<close> catches the exception and
  prints it, and the chunks written before stay in the file. A newline is written as
  it is (the line separator of a POSIX system).
\<close>

definition utf8_char :: "nat \<Rightarrow> byte list option" where
  "utf8_char c =
     (if c < 0x80 then Some [of_nat c]
      else if c < 0x800 then Some [of_nat (0xC0 + c div 64), of_nat (0x80 + c mod 64)]
      else if c < 0x10000 then
        (if 0xD800 \<le> c \<and> c \<le> 0xDFFF then None
         else Some [of_nat (0xE0 + c div 4096), of_nat (0x80 + c div 64 mod 64),
                    of_nat (0x80 + c mod 64)])
      else if c < 0x110000 then
        Some [of_nat (0xF0 + c div 262144), of_nat (0x80 + c div 4096 mod 64),
              of_nat (0x80 + c div 64 mod 64), of_nat (0x80 + c mod 64)]
      else None)"

fun utf8_encode :: "pystr \<Rightarrow> byte list option" where
  "utf8_encode [] = Some []"
| "utf8_encode (c # cs) =
     (case utf8_char c of
        None \<Rightarrow> None
      | Some b \<Rightarrow> (case utf8_encode cs of None \<Rightarrow> None | Some bs \<Rightarrow> Some (b @ bs)))"

text \<open>
  \<open>write_chunks\<close> returns the bytes in the file when the \<open>with\<close> block is left, and
  whether every chunk was written.
\<close>

fun write_chunks :: "pystr list \<Rightarrow> byte list \<Rightarrow> byte list \<times> bool" where
  "write_chunks [] written = (written, True)"
| "write_chunks (chunk # chunks) written =
     (case utf8_encode chunk of
        None \<Rightarrow> (written, False)
      | Some bs \<Rightarrow> write_chunks chunks (written @ bs))"

definition save_tasks :: "TodoApp \<Rightarrow> TodoApp" where
  "save_tasks app =
     app\<lparr>tasks_file := Some (fst (write_chunks (iterencode_list (tasks app)) []))\<rparr>"

subsection \<open>Reading the file\<close>

text \<open>
  \<open>file.read()\<close> decodes the bytes as UTF-8, strictly: an ill-formed sequence, an
  overlong form or an encoded surrogate raises \<open>UnicodeDecodeError\<close> (\<open>None\<close> here).
  In the decoded text every \<open>\<^verbatim>\<open>\r\n\<close>\<close> and every other \<open>\<^verbatim>\<open>\r\<close>\<close> is turned into
  \<open>\<^verbatim>\<open>\n\<close>\<close> (universal newlines).
\<close>

definition is_continuation :: "byte \<Rightarrow> bool" where
  "is_continuation b \<longleftrightarrow> 0x80 \<le> unat b \<and> unat b \<le> 0xBF"

fun utf8_decode :: "byte list \<Rightarrow> pystr option" where
  "utf8_decode [] = Some []"
| "utf8_decode (b # bs) =
     (let n = unat b in
      if n < 0x80 then map_option ((#) n) (utf8_decode bs)
      else if 0xC2 \<le> n \<and> n \<le> 0xDF then
        (case bs of
           b1 # r \<Rightarrow>
             if is_continuation b1
             then map_option ((#) ((n - 0xC0) * 64 + (unat b1 - 0x80))) (utf8_decode r)
             else None
         | _ \<Rightarrow> None)
      else if 0xE0 \<le> n \<and> n \<le> 0xEF then
        (case bs of
           b1 # b2 # r \<Rightarrow>
             let c = (n - 0xE0) * 4096 + (unat b1 - 0x80) * 64 + (unat b2 - 0x80) in
             if is_continuation b1 \<and> is_continuation b2 \<and> 0x800 \<le> c
                \<and> \<not> (0xD800 \<le> c \<and> c \<le> 0xDFFF)
             then map_option ((#) c) (utf8_decode r)
             else None
         | _ \<Rightarrow> None)
      else if 0xF0 \<le> n \<and> n \<le> 0xF4 then
        (case bs of
           b1 # b2 # b3 # r \<Rightarrow>
             let c = (n - 0xF0) * 262144 + (unat b1 - 0x80) * 4096
                     + (unat b2 - 0x80) * 64 + (unat b3 - 0x80) in
             if is_continuation b1 \<and> is_continuation b2 \<and> is_continuation b3
                \<and> 0x10000 \<le> c \<and> c < 0x110000
             then map_option ((#) c) (utf8_decode r)
             else None
         | _ \<Rightarrow> None)
      else None)"

fun universal_newlines :: "pystr \<Rightarrow> pystr" where
  "universal_newlines [] = []"
| "universal_newlines [c] = (if c = 13 then [10] else [c])"
| "universal_newlines (c # d # s) =
     (if c = 13 \<and> d = 10 then 10 # universal_newlines s
      else if c = 13 then 10 # universal_newlines (d # s)
      else c # universal_newlines (d # s))"

subsection \<open>json.loads\<close>

text \<open>
  The values that \<open>json.loads\<close> builds. A dict is the list of its items in the order
  of insertion. A float is kept as the text of its literal: the model never computes
  with one. The scanner returns the value and the text after it, or fails with
  \<open>JSONDecodeError\<close>; \<open>OutOfFuel\<close> is the third outcome of the model only (see
  \<open>scan_once\<close>). Limits of the interpreter (the depth of recursion, the length of an
  integer literal) are left out.
\<close>

datatype json =
    JNull
  | JBool bool
  | JInt int
  | JFloat pystr
  | JStr pystr
  | JArr "json list"
  | JObj "(pystr \<times> json) list"

datatype 'a scan = Parsed 'a pystr | DecodeError | OutOfFuel

definition is_ws :: "nat \<Rightarrow> bool" where
  "is_ws c \<longleftrightarrow> c = 32 \<or> c = 9 \<or> c = 10 \<or> c = 13"

definition skip_ws :: "pystr \<Rightarrow> pystr" where
  "skip_ws s = dropWhile is_ws s"

definition hex_value :: "nat \<Rightarrow> nat option" where
  "hex_value c =
     (if 48 \<le> c \<and> c \<le> 57 then Some (c - 48)
      else if 97 \<le> c \<and> c \<le> 102 then Some (c - 87)
      else if 65 \<le> c \<and> c \<le> 70 then Some (c - 55)
      else None)"

fun decode_uXXXX :: "pystr \<Rightarrow> nat option" where
  "decode_uXXXX (a # b # c # d # r) =
     (case (hex_value a, hex_value b, hex_value c, hex_value d) of
        (Some x, Some y, Some z, Some w) \<Rightarrow> Some (((x * 16 + y) * 16 + z) * 16 + w)
      | _ \<Rightarrow> None)"
| "decode_uXXXX _ = None"

definition backslash :: "nat \<Rightarrow> nat option" where
  "backslash esc =
     (if esc = 34 then Some 34
      else if esc = 92 then Some 92
      else if esc = 47 then Some 47
      else if esc = 98 then Some 8
      else if esc = 102 then Some 12
      else if esc = 110 then Some 10
      else if esc = 114 then Some 13
      else if esc = 116 then Some 9
      else None)"

text \<open>
  The four hexadecimal digits after \<open>\<^verbatim>\<open>\u\<close>\<close>, joined with a low surrogate escape that
  follows a high surrogate: the character, and how many characters of \<open>s\<close> it took.
\<close>

definition unicode_escape :: "pystr \<Rightarrow> (nat \<times> nat) option" where
  "unicode_escape s =
     (case decode_uXXXX s of
        None \<Rightarrow> None
      | Some uni \<Rightarrow>
          if 0xD800 \<le> uni \<and> uni \<le> 0xDBFF \<and> take 2 (drop 4 s) = [92, 117] then
            (case decode_uXXXX (drop 6 s) of
               None \<Rightarrow> None
             | Some uni2 \<Rightarrow>
                 if 0xDC00 \<le> uni2 \<and> uni2 \<le> 0xDFFF
                 then Some (0x10000 + (uni - 0xD800) * 1024 + (uni2 - 0xDC00), 10)
                 else Some (uni, 4))
          else Some (uni, 4))"

text \<open>
  \<open>scanstring\<close> reads a string after its opening quote (strict mode: a raw control
  character is an error) and returns it with the text after the closing quote.
\<close>

function scanstring :: "pystr \<Rightarrow> (pystr \<times> pystr) option" where
  "scanstring [] = None"
| "scanstring (c # s) =
     (if c = 34 then Some ([], s)
      else if c = 92 then
        (case s of
           [] \<Rightarrow> None
         | esc # r \<Rightarrow>
             if esc = 117 then
               (case unicode_escape r of
                  None \<Rightarrow> None
                | Some (ch, k) \<Rightarrow>
                    map_option (\<lambda>(t, rest). (ch # t, rest)) (scanstring (drop k r)))
             else
               (case backslash esc of
                  None \<Rightarrow> None
                | Some ch \<Rightarrow> map_option (\<lambda>(t, rest). (ch # t, rest)) (scanstring r)))
      else if c < 32 then None
      else map_option (\<lambda>(t, rest). (c # t, rest)) (scanstring s))"
  by pat_completeness auto
termination
  by (relation "measure length") auto

text \<open>
  A number: \<open>-?(0|[1-9][0-9]*)(\.[0-9]+)?([eE][-+]?[0-9]+)?\<close>. Without fraction and
  exponent it is an \<open>int\<close>; otherwise, and for \<open>NaN\<close>, \<open>Infinity\<close> and \<open>-Infinity\<close>, a
  \<open>float\<close>, which the model keeps as the text of the literal.
\<close>

definition is_digit :: "nat \<Rightarrow> bool" where
  "is_digit c \<longleftrightarrow> 48 \<le> c \<and> c \<le> 57"

definition decimal_value :: "pystr \<Rightarrow> nat" where
  "decimal_value ds = foldl (\<lambda>acc c. 10 * acc + (c - 48)) 0 ds"

definition match_integer :: "pystr \<Rightarrow> (pystr \<times> pystr) option" where
  "match_integer s =
     (case s of
        [] \<Rightarrow> None
      | c # r \<Rightarrow>
          if c = 48 then Some ([48], r)
          else if 49 \<le> c \<and> c \<le> 57 then Some (c # takeWhile is_digit r, dropWhile is_digit r)
          else None)"

definition match_frac :: "pystr \<Rightarrow> pystr \<times> pystr" where
  "match_frac s =
     (case s of
        c # d # r \<Rightarrow>
          if c = 46 \<and> is_digit d
          then (c # d # takeWhile is_digit r, dropWhile is_digit r)
          else ([], s)
      | _ \<Rightarrow> ([], s))"

definition match_exp :: "pystr \<Rightarrow> pystr \<times> pystr" where
  "match_exp s =
     (case s of
        [] \<Rightarrow> ([], s)
      | e # r \<Rightarrow>
          if e = 101 \<or> e = 69 then
            (let sign = (case r of [] \<Rightarrow> [] | g # _ \<Rightarrow> if g = 45 \<or> g = 43 then [g] else []);
                 r1 = drop (length sign) r
             in if takeWhile is_digit r1 = [] then ([], s)
                else (e # sign @ takeWhile is_digit r1, dropWhile is_digit r1))
          else ([], s))"

definition match_number :: "pystr \<Rightarrow> (json \<times> pystr) option" where
  "match_number s =
     (let (sign, s1) = (case s of [] \<Rightarrow> ([], s) | c # r \<Rightarrow> if c = 45 then ([c], r) else ([], s))
      in case match_integer s1 of
           None \<Rightarrow> None
         | Some (integer, s2) \<Rightarrow>
             let (frac, s3) = match_frac s2;
                 (exp, s4) = match_exp s3
             in if frac \<noteq> [] \<or> exp \<noteq> []
                then Some (JFloat (sign @ integer @ frac @ exp), s4)
                else Some (JInt (if sign = [] then int (decimal_value integer)
                                 else - int (decimal_value integer)), s4))"

text \<open>\<open>dict(pairs)\<close>: a later value for a key replaces the earlier one in its place.\<close>

fun setitem :: "(pystr \<times> json) list \<Rightarrow> pystr \<Rightarrow> json \<Rightarrow> (pystr \<times> json) list" where
  "setitem [] k v = [(k, v)]"
| "setitem ((k', v') # d) k v = (if k' = k then (k, v) # d else (k', v') # setitem d k v)"

definition py_dict :: "(pystr \<times> json) list \<Rightarrow> (pystr \<times> json) list" where
  "py_dict pairs = foldl (\<lambda>d (k, v). setitem d k v) [] pairs"

definition starts_with :: "pystr \<Rightarrow> pystr \<Rightarrow> bool" where
  "starts_with p s \<longleftrightarrow> take (length p) s = p"

text \<open>
  The scanner. Each call of \<open>scan_once\<close>, of the loop of \<open>JSONArray\<close> and of the loop
  of \<open>JSONObject\<close> takes one unit of fuel; \<open>json_loads\<close> provides twice the length of
  the text plus one.
\<close>

fun scan_once :: "nat \<Rightarrow> pystr \<Rightarrow> json scan"
  and array_values :: "nat \<Rightarrow> pystr \<Rightarrow> json list scan"
  and object_pairs :: "nat \<Rightarrow> pystr \<Rightarrow> (pystr \<times> json) list scan" where
  "scan_once 0 s = OutOfFuel"
| "scan_once (Suc n) s =
     (case s of
        [] \<Rightarrow> DecodeError
      | nextchar # r \<Rightarrow>
          if nextchar = 34 then
            (case scanstring r of
               None \<Rightarrow> DecodeError
             | Some (t, rest) \<Rightarrow> Parsed (JStr t) rest)
          else if nextchar = 123 then
            (case skip_ws r of
               [] \<Rightarrow> DecodeError
             | c # rest \<Rightarrow>
                 if c = 125 then Parsed (JObj []) rest
                 else (case object_pairs n (c # rest) of
                         Parsed pairs rest' \<Rightarrow> Parsed (JObj (py_dict pairs)) rest'
                       | DecodeError \<Rightarrow> DecodeError
                       | OutOfFuel \<Rightarrow> OutOfFuel))
          else if nextchar = 91 then
            (case skip_ws r of
               [] \<Rightarrow> DecodeError
             | c # rest \<Rightarrow>
                 if c = 93 then Parsed (JArr []) rest
                 else (case array_values n (c # rest) of
                         Parsed values rest' \<Rightarrow> Parsed (JArr values) rest'
                       | DecodeError \<Rightarrow> DecodeError
                       | OutOfFuel \<Rightarrow> OutOfFuel))
          else if starts_with (lit ''null'') s then Parsed JNull (drop 4 s)
          else if starts_with (lit ''true'') s then Parsed (JBool True) (drop 4 s)
          else if starts_with (lit ''false'') s then Parsed (JBool False) (drop 5 s)
          else if starts_with (lit ''NaN'') s then Parsed (JFloat (lit ''NaN'')) (drop 3 s)
          else if starts_with (lit ''Infinity'') s
            then Parsed (JFloat (lit ''Infinity'')) (drop 8 s)
          else if starts_with (lit ''-Infinity'') s
            then Parsed (JFloat (lit ''-Infinity'')) (drop 9 s)
          else (case match_number s of
                  None \<Rightarrow> DecodeError
                | Some (v, rest) \<Rightarrow> Parsed v rest))"
| "array_values 0 s = OutOfFuel"
| "array_values (Suc n) s =
     (case scan_once n s of
        Parsed v r \<Rightarrow>
          (case skip_ws r of
             [] \<Rightarrow> DecodeError
           | c # rest \<Rightarrow>
               if c = 93 then Parsed [v] rest
               else if c = 44 then
                 (case array_values n (skip_ws rest) of
                    Parsed vs rest' \<Rightarrow> Parsed (v # vs) rest'
                  | DecodeError \<Rightarrow> DecodeError
                  | OutOfFuel \<Rightarrow> OutOfFuel)
               else DecodeError)
      | DecodeError \<Rightarrow> DecodeError
      | OutOfFuel \<Rightarrow> OutOfFuel)"
| "object_pairs 0 s = OutOfFuel"
| "object_pairs (Suc n) s =
     (case s of
        [] \<Rightarrow> DecodeError
      | q # r \<Rightarrow>
          if q \<noteq> 34 then DecodeError
          else
            (case scanstring r of
               None \<Rightarrow> DecodeError
             | Some (key, r1) \<Rightarrow>
                 (case skip_ws r1 of
                    [] \<Rightarrow> DecodeError
                  | colon # r2 \<Rightarrow>
                      if colon \<noteq> 58 then DecodeError
                      else
                        (case scan_once n (skip_ws r2) of
                           Parsed v r3 \<Rightarrow>
                             (case skip_ws r3 of
                                [] \<Rightarrow> DecodeError
                              | c # rest \<Rightarrow>
                                  if c = 125 then Parsed [(key, v)] rest
                                  else if c = 44 then
                                    (case object_pairs n (skip_ws rest) of
                                       Parsed pairs rest' \<Rightarrow> Parsed ((key, v) # pairs) rest'
                                     | DecodeError \<Rightarrow> DecodeError
                                     | OutOfFuel \<Rightarrow> OutOfFuel)
                                  else DecodeError)
                         | DecodeError \<Rightarrow> DecodeError
                         | OutOfFuel \<Rightarrow> OutOfFuel))))"

definition json_loads :: "pystr \<Rightarrow> json scan" where
  "json_loads s =
     (if starts_with [0xFEFF] s then DecodeError
      else case scan_once (2 * length s + 1) (skip_ws s) of
             Parsed obj rest \<Rightarrow> if skip_ws rest = [] then Parsed obj [] else DecodeError
           | DecodeError \<Rightarrow> DecodeError
           | OutOfFuel \<Rightarrow> OutOfFuel)"

text \<open>
  The Python value that \<open>json.loads\<close> returns becomes \<open>self.tasks\<close>. It is a state of
  the model when it is a list of dicts that have exactly the keys of a task (with or
  without \<open>"completed_at"\<close>, in any order) and values of the types of a task.
\<close>

definition task_of_json :: "json \<Rightarrow> task option" where
  "task_of_json v =
     (case v of
        JObj d \<Rightarrow>
          (case (map_of d (lit ''id''), map_of d (lit ''description''),
                 map_of d (lit ''completed''), map_of d (lit ''created_at'')) of
             (Some (JInt i), Some (JStr ds), Some (JBool c), Some (JStr cr)) \<Rightarrow>
               (case map_of d (lit ''completed_at'') of
                  None \<Rightarrow>
                    if length d = 4
                    then Some \<lparr>id' = i, description = ds, completed = c, created_at = cr,
                               completed_at = None\<rparr>
                    else None
                | Some (JStr ca) \<Rightarrow>
                    if length d = 5
                    then Some \<lparr>id' = i, description = ds, completed = c, created_at = cr,
                               completed_at = Some ca\<rparr>
                    else None
                | Some _ \<Rightarrow> None)
           | _ \<Rightarrow> None)
      | _ \<Rightarrow> None)"

fun tasks_of_values :: "json list \<Rightarrow> task list option" where
  "tasks_of_values [] = Some []"
| "tasks_of_values (v # vs) =
     (case task_of_json v of
        None \<Rightarrow> None
      | Some t \<Rightarrow> map_option ((#) t) (tasks_of_values vs))"

text \<open>
  The outcomes of \<open>load_tasks\<close>:
  \<^item> \<open>Loaded ts\<close>: \<open>self.tasks\<close> is the list \<open>ts\<close>; this is also the outcome, with the
    empty list, for a missing file, a blank file and a \<open>JSONDecodeError\<close>;
  \<^item> \<open>OtherValue v\<close>: \<open>self.tasks\<close> is the value \<open>v\<close>, which is not a list of tasks;
  \<^item> \<open>UnicodeDecodeError\<close>: \<open>file.read()\<close> raises it and the \<open>except\<close> clause, which
    names \<open>JSONDecodeError\<close> and \<open>FileNotFoundError\<close>, does not catch it;
  \<^item> \<open>NoResult\<close>: the scanner ran out of fuel, which does not happen
    (\<open>load_tasks_returns\<close> below).
\<close>

datatype loaded =
    Loaded "task list"
  | OtherValue json
  | UnicodeDecodeError
  | NoResult

definition load_tasks :: "byte list option \<Rightarrow> loaded" where
  "load_tasks file =
     (case file of
        None \<Rightarrow> Loaded []
      | Some bytes \<Rightarrow>
          (case utf8_decode bytes of
             None \<Rightarrow> UnicodeDecodeError
           | Some text \<Rightarrow>
               let content = strip (universal_newlines text) in
               if content = [] then Loaded []
               else
                 (case json_loads content of
                    DecodeError \<Rightarrow> Loaded []
                  | OutOfFuel \<Rightarrow> NoResult
                  | Parsed v _ \<Rightarrow>
                      (case v of
                         JArr vs \<Rightarrow>
                           (case tasks_of_values vs of
                              Some ts \<Rightarrow> Loaded ts
                            | None \<Rightarrow> OtherValue v)
                       | _ \<Rightarrow> OtherValue v))))"

text \<open>
  The items of the dict of a task, in the order of insertion, as values of the scanner.
\<close>

definition task_items :: "task \<Rightarrow> (pystr \<times> json) list" where
  "task_items t =
     [(lit ''id'', JInt (id' t)),
      (lit ''description'', JStr (description t)),
      (lit ''completed'', JBool (completed t)),
      (lit ''created_at'', JStr (created_at t))]
     @ (case completed_at t of None \<Rightarrow> [] | Some c \<Rightarrow> [(lit ''completed_at'', JStr c)])"

subsection \<open>Printing\<close>

text \<open>
  \<open>print\<close> writes a line to the console, which is taken to encode in UTF-8 (the
  default of Python 3): it raises \<open>UnicodeEncodeError\<close> exactly when the line holds a
  code point without encoding, a surrogate. The error lines of the methods, the line
  of \<open>save_tasks\<close> about a failed write and the lines of \<open>clear_completed\<close> hold ASCII
  text and numbers only and always print. A success line is a check mark (U+2713), a
  fixed text and a quoted description:
  \<^item> \<open>add_task\<close>: "Task added successfully: " and the description as it was passed;
  \<^item> \<open>remove_task\<close>: "Task removed: " and the description of the removed task;
  \<^item> \<open>mark_completed\<close>: "Task marked as completed: " and the description of the task.
\<close>

definition success_line :: "string \<Rightarrow> pystr \<Rightarrow> pystr" where
  "success_line what quoted = 0x2713 # lit what @ 39 # quoted @ [39]"

definition print_raises :: "pystr \<Rightarrow> bool" where
  "print_raises line \<longleftrightarrow> utf8_encode line = None"

text \<open>The last two statements of a method that succeeds: the \<open>print\<close> and \<open>return True\<close>.\<close>

definition print_success :: "string \<Rightarrow> pystr \<Rightarrow> error + pystr" where
  "print_success what quoted =
     (if print_raises (success_line what quoted) then Inl UnicodeEncodeError else Inr quoted)"

subsection \<open>The operations\<close>

definition add_task :: "pystr \<Rightarrow> pystr \<Rightarrow> TodoApp \<Rightarrow> (error + pystr) \<times> TodoApp" where
  "add_task now task_description app =
     (if strip task_description = [] then (Inl ValidationError, app)
      else
        let t = \<lparr>id' = int (length (tasks app)) + 1,
                 description = strip task_description,
                 completed = False,
                 created_at = now,
                 completed_at = None\<rparr>
        in (print_success '' Task added successfully: '' task_description,
            save_tasks (app\<lparr>tasks := tasks app @ [t]\<rparr>)))"

text \<open>The loop of \<open>remove_task\<close>: the index of the first task with the id.\<close>

fun find_task :: "int \<Rightarrow> task list \<Rightarrow> nat option" where
  "find_task n [] = None"
| "find_task n (t # ts) =
     (if id' t = n then Some 0 else map_option Suc (find_task n ts))"

definition pop :: "nat \<Rightarrow> 'a list \<Rightarrow> 'a list" where
  "pop i xs = take i xs @ drop (Suc i) xs"

text \<open>
  \<open>if task_to_remove:\<close> tests a dict that has at least the key \<open>"id"\<close>, so it is
  true exactly when the loop found a task.
\<close>

definition remove_task ::
    "(pystr \<Rightarrow> int option) \<Rightarrow> pystr \<Rightarrow> TodoApp \<Rightarrow> (error + pystr) \<times> TodoApp" where
  "remove_task to_int task_id app =
     (case to_int task_id of
        None \<Rightarrow> (Inl InvalidArgument, app)
      | Some n \<Rightarrow>
          (case find_task n (tasks app) of
             None \<Rightarrow> (Inl (NotFound n), app)
           | Some i \<Rightarrow>
               (print_success '' Task removed: '' (description (tasks app ! i)),
                save_tasks (app\<lparr>tasks := pop i (tasks app)\<rparr>))))"

text \<open>
  The loop of \<open>mark_completed\<close>: it updates the first task with the id and returns
  from inside the loop; \<open>None\<close> when the loop ends without a match.
\<close>

fun complete_first :: "pystr \<Rightarrow> int \<Rightarrow> task list \<Rightarrow> (pystr \<times> task list) option" where
  "complete_first now n [] = None"
| "complete_first now n (t # ts) =
     (if id' t = n
      then Some (description t, t\<lparr>completed := True, completed_at := Some now\<rparr> # ts)
      else map_option (\<lambda>(d, ts'). (d, t # ts')) (complete_first now n ts))"

definition mark_completed ::
    "(pystr \<Rightarrow> int option) \<Rightarrow> pystr \<Rightarrow> pystr \<Rightarrow> TodoApp \<Rightarrow> (error + pystr) \<times> TodoApp" where
  "mark_completed to_int now task_id app =
     (case to_int task_id of
        None \<Rightarrow> (Inl InvalidArgument, app)
      | Some n \<Rightarrow>
          (case complete_first now n (tasks app) of
             None \<Rightarrow> (Inl (NotFound n), app)
           | Some (d, ts) \<Rightarrow>
               (print_success '' Task marked as completed: '' d,
                save_tasks (app\<lparr>tasks := ts\<rparr>))))"

text \<open>
  \<open>clear_completed\<close> returns no value. It prints one of two lines: "No completed
  tasks to clear!", which holds no number, when no task is completed (it returns
  before it touches the list or the file), and "Cleared n completed task(s)"
  otherwise.
\<close>

datatype cleared = NothingToClear | Cleared nat

definition clear_completed :: "TodoApp \<Rightarrow> cleared \<times> TodoApp" where
  "clear_completed app =
     (let completed_count = length (filter completed (tasks app))
      in if completed_count = 0 then (NothingToClear, app)
         else (Cleared completed_count,
               save_tasks (app\<lparr>tasks := filter (\<lambda>t. \<not> completed t) (tasks app)\<rparr>)))"

text \<open>
  \<open>show_stats\<close> prints "Statistics: No tasks available" for an empty list and returns;
  otherwise it prints the four figures. The rate is the quotient that Python computes
  in floating point and prints with one decimal; the model keeps the exact quotient.
\<close>

record statistics =
  total :: nat
  completed_n :: nat
  pending :: nat
  completion_rate :: rat

datatype stats_output = NoTasksAvailable | Statistics statistics

definition show_stats :: "TodoApp \<Rightarrow> stats_output" where
  "show_stats app =
     (if tasks app = [] then NoTasksAvailable
      else
        let total = length (tasks app);
            completed = length (filter completed (tasks app));
            pending = total - completed;
            completion_rate =
              (if total > 0 then of_nat completed / of_nat total * 100 else 0)
        in Statistics \<lparr>total = total, completed_n = completed, pending = pending,
                        completion_rate = completion_rate\<rparr>)"

subsection \<open>Runs of the store\<close>

text \<open>
  A fresh \<open>TodoApp\<close> whose file does not exist starts with no task. A command is one
  call of a mutating method with its arguments.
\<close>

definition empty_app :: TodoApp where
  "empty_app = \<lparr>tasks = [], tasks_file = None\<rparr>"

datatype command =
    Add pystr pystr
  | Remove pystr
  | Complete pystr pystr
  | ClearCompleted

fun step :: "(pystr \<Rightarrow> int option) \<Rightarrow> command \<Rightarrow> TodoApp \<Rightarrow> TodoApp" where
  "step to_int (Add now d) app = snd (add_task now d app)"
| "step to_int (Remove i) app = snd (remove_task to_int i app)"
| "step to_int (Complete now i) app = snd (mark_completed to_int now i app)"
| "step to_int ClearCompleted app = snd (clear_completed app)"

fun run :: "(pystr \<Rightarrow> int option) \<Rightarrow> command list \<Rightarrow> TodoApp \<Rightarrow> TodoApp" where
  "run to_int [] app = app"
| "run to_int (c # cs) app = run to_int cs (step to_int c app)"

text \<open>
  A reading of \<open>int\<close> on which the examples below run: an optional minus sign and
  ASCII digits. Where it returns a number, \<open>int\<close> returns the same; \<open>int\<close> accepts more
  (surrounding whitespace, a plus sign, underscores between digits, the decimal digits
  of other scripts).
\<close>

fun digits_value :: "pystr \<Rightarrow> nat \<Rightarrow> nat option" where
  "digits_value [] acc = Some acc"
| "digits_value (c # cs) acc =
     (if 48 \<le> c \<and> c \<le> 57 then digits_value cs (10 * acc + (c - 48)) else None)"

definition int_decimal :: "pystr \<Rightarrow> int option" where
  "int_decimal s =
     (case s of
        [] \<Rightarrow> None
      | c # cs \<Rightarrow>
          if c = 45 then (if cs = [] then None else map_option (\<lambda>n. - int n) (digits_value cs 0))
          else map_option int (digits_value s 0))"

section \<open>Properties of the operations\<close>

subsection \<open>Auxiliary facts\<close>

lemma tasks_save_tasks [simp]: "tasks (save_tasks app) = tasks app"
  by (simp add: save_tasks_def)

lemma utf8_encode_append:
  "utf8_encode (a @ b) =
     (case utf8_encode a of None \<Rightarrow> None
      | Some x \<Rightarrow> (case utf8_encode b of None \<Rightarrow> None | Some y \<Rightarrow> Some (x @ y)))"
  by (induction a) (auto split: option.splits)

lemma print_success_quoted:
  assumes "utf8_encode (lit what) \<noteq> None"
  shows "print_success what quoted =
           (if utf8_encode quoted = None then Inl UnicodeEncodeError else Inr quoted)"
proof -
  have mark: "utf8_char 0x2713 \<noteq> None" and quote: "utf8_char 39 \<noteq> None"
    by (simp_all add: utf8_char_def)
  have "utf8_encode (success_line what quoted) = None \<longleftrightarrow> utf8_encode quoted = None"
    using assms mark quote
    by (auto simp: success_line_def utf8_encode_append split: option.splits)
  then show ?thesis
    by (simp add: print_success_def print_raises_def)
qed

lemma print_added:
  "print_success '' Task added successfully: '' quoted =
     (if utf8_encode quoted = None then Inl UnicodeEncodeError else Inr quoted)"
  by (rule print_success_quoted) (simp add: lit_def utf8_char_def)

lemma print_removed:
  "print_success '' Task removed: '' quoted =
     (if utf8_encode quoted = None then Inl UnicodeEncodeError else Inr quoted)"
  by (rule print_success_quoted) (simp add: lit_def utf8_char_def)

lemma print_completed:
  "print_success '' Task marked as completed: '' quoted =
     (if utf8_encode quoted = None then Inl UnicodeEncodeError else Inr quoted)"
  by (rule print_success_quoted) (simp add: lit_def utf8_char_def)

lemma find_task_None: "find_task n ts = None \<longleftrightarrow> n \<notin> id' ` set ts"
  by (induction ts) auto

lemma find_task_Some:
  "find_task n ts = Some k \<Longrightarrow>
     k < length ts \<and> id' (ts ! k) = n \<and> (\<forall>j<k. id' (ts ! j) \<noteq> n)"
proof (induction ts arbitrary: k)
  case Nil
  then show ?case by simp
next
  case (Cons t ts)
  show ?case
  proof (cases "id' t = n")
    case True
    with Cons.prems show ?thesis by simp
  next
    case False
    with Cons.prems obtain k' where k': "find_task n ts = Some k'" "k = Suc k'"
      by auto
    from Cons.IH [OF k'(1)] False k'(2) show ?thesis
      by (auto simp: less_Suc_eq_0_disj)
  qed
qed

lemma find_task_exists: "n \<in> id' ` set ts \<Longrightarrow> \<exists>k. find_task n ts = Some k"
  using find_task_None [of n ts] by (cases "find_task n ts") auto

lemma complete_first_None: "find_task n ts = None \<Longrightarrow> complete_first now n ts = None"
  by (induction ts) (auto split: if_splits)

lemma complete_first_Some:
  "find_task n ts = Some k \<Longrightarrow>
     complete_first now n ts =
       Some (description (ts ! k), ts[k := (ts ! k)\<lparr>completed := True, completed_at := Some now\<rparr>])"
  by (induction ts arbitrary: k) (auto split: if_splits)

lemma find_task_list_update:
  "id' u = id' (ts ! k) \<Longrightarrow> k < length ts \<Longrightarrow> find_task n (ts[k := u]) = find_task n ts"
proof (induction ts arbitrary: k)
  case Nil
  then show ?case by simp
next
  case (Cons t ts)
  then show ?case by (cases k) simp_all
qed

lemma complete_first_set:
  "complete_first now n ts = Some (d, ts') \<Longrightarrow> t' \<in> set ts' \<Longrightarrow>
     t' \<in> set ts \<or> (completed t' \<and> completed_at t' = Some now)"
proof (induction ts arbitrary: ts' d)
  case Nil
  then show ?case by simp
next
  case (Cons t ts)
  show ?case
  proof (cases "id' t = n")
    case True
    with Cons.prems show ?thesis by auto
  next
    case False
    with Cons.prems obtain ts0 where ts0: "complete_first now n ts = Some (d, ts0)" "ts' = t # ts0"
      by auto
    with Cons.IH [OF ts0(1)] Cons.prems(2) show ?thesis by auto
  qed
qed

lemma step_pending_no_stamp:
  assumes "\<forall>t\<in>set (tasks app). \<not> completed t \<longrightarrow> completed_at t = None"
  shows "\<forall>t\<in>set (tasks (step to_int c app)). \<not> completed t \<longrightarrow> completed_at t = None"
proof (cases c)
  case (Add now d)
  with assms show ?thesis by (auto simp: add_task_def Let_def)
next
  case (Remove i)
  with assms show ?thesis
    by (auto simp: remove_task_def pop_def split: option.splits dest: in_set_takeD in_set_dropD)
next
  case (Complete now i)
  with assms show ?thesis
    by (auto simp: mark_completed_def split: option.splits dest: complete_first_set)
next
  case ClearCompleted
  with assms show ?thesis by (auto simp: clear_completed_def Let_def)
qed

lemma run_pending_no_stamp:
  "\<forall>t\<in>set (tasks app). \<not> completed t \<longrightarrow> completed_at t = None \<Longrightarrow>
   \<forall>t\<in>set (tasks (run to_int cs app)). \<not> completed t \<longrightarrow> completed_at t = None"
proof (induction cs arbitrary: app)
  case Nil
  then show ?case by simp
next
  case (Cons c cs)
  from Cons.IH [OF step_pending_no_stamp [OF Cons.prems]] show ?case by simp
qed



lemma list_emb_same: "(\<And>x. P x x) \<Longrightarrow> list_emb P xs xs"
  by (induction xs) auto

lemma list_emb_pop: "(\<And>x. P x x) \<Longrightarrow> list_emb P (pop k xs) xs"
proof (induction xs arbitrary: k)
  case Nil
  then show ?case by (simp add: pop_def)
next
  case (Cons x xs)
  show ?case
  proof (cases k)
    case 0
    then show ?thesis using Cons.prems by (auto simp: pop_def intro: list_emb_same)
  next
    case (Suc k')
    with Cons.IH [OF Cons.prems, of k'] Cons.prems show ?thesis by (simp add: pop_def)
  qed
qed

lemma list_emb_filter: "(\<And>x. P x x) \<Longrightarrow> list_emb P (filter Q xs) xs"
  by (induction xs) auto

lemma list_emb_complete_first:
  assumes "\<And>x. P x x" and "\<And>x. P (x\<lparr>completed := True, completed_at := Some now\<rparr>) x"
  shows "complete_first now n ts = Some (d, ts') \<Longrightarrow> list_emb P ts' ts"
proof (induction ts arbitrary: ts' d)
  case Nil
  then show ?case by simp
next
  case (Cons t ts)
  show ?case
  proof (cases "id' t = n")
    case True
    with Cons.prems assms show ?thesis by (auto simp: list_emb_same)
  next
    case False
    with Cons.prems obtain ts0 where ts0: "complete_first now n ts = Some (d, ts0)" "ts' = t # ts0"
      by auto
    with Cons.IH [OF ts0(1)] assms(1) show ?thesis by simp
  qed
qed

lemma step_keeps_tasks:
  fixes P :: "task \<Rightarrow> task \<Rightarrow> bool"
  assumes refl: "\<And>x. P x x"
    and upd: "\<And>x now. P (x\<lparr>completed := True, completed_at := Some now\<rparr>) x"
  shows "list_emb P (take (length (tasks app)) (tasks (step to_int c app))) (tasks app)"
proof (cases c)
  case (Add now d)
  then show ?thesis by (simp add: add_task_def Let_def list_emb_same [of P, OF refl])
next
  case (Remove i)
  have "length (pop k (tasks app)) \<le> length (tasks app)" for k
    by (simp add: pop_def)
  with Remove show ?thesis
    by (simp add: remove_task_def list_emb_same [of P, OF refl]
        list_emb_pop [of P, OF refl] split: option.splits)
next
  case (Complete now i)
  have len: "complete_first now n ts = Some (d, ts') \<Longrightarrow> length ts' = length ts"
    for n ts d ts'
    by (induction ts arbitrary: ts' d) (auto split: if_splits)
  from Complete show ?thesis
    by (auto simp: mark_completed_def list_emb_same [of P, OF refl] len
        split: option.splits intro: list_emb_complete_first [of P, OF refl upd])
next
  case ClearCompleted
  then show ?thesis
    by (simp add: clear_completed_def Let_def list_emb_same [of P, OF refl]
        list_emb_filter [of P, OF refl])
qed

subsection \<open>Adding\<close>

text \<open>
  Claim C4, as the code has it. For every description whose stripped form is not
  empty, and every state, \<open>add_task\<close> appends exactly one task at the end: its
  description is the stripped text, its id is the former length plus 1, it is not
  completed, its \<open>created_at\<close> is the time of the call; the tasks that were there are
  unchanged. It succeeds, printing its success line and returning \<open>True\<close>, whenever
  the description can be encoded in UTF-8, that is, holds no surrogate code point.
\<close>

theorem add_task_appends:
  assumes "strip d \<noteq> []"
  shows "tasks (snd (add_task now d app)) =
           tasks app @ [\<lparr>id' = int (length (tasks app)) + 1, description = strip d,
                          completed = False, created_at = now, completed_at = None\<rparr>] \<and>
         (utf8_encode d \<noteq> None \<longrightarrow> fst (add_task now d app) = Inr d)"
  using assms by (simp add: add_task_def Let_def print_added)

theorem add_task_appends_witness:
  "strip (lit '' buy milk '') \<noteq> [] \<and> utf8_encode (lit '' buy milk '') \<noteq> None \<and>
   fst (add_task (lit ''2024-01-01 10:00:00'') (lit '' buy milk '') empty_app)
     = Inr (lit '' buy milk '') \<and>
   tasks (snd (add_task (lit ''2024-01-01 10:00:00'') (lit '' buy milk '') empty_app)) =
     [\<lparr>id' = 1, description = lit ''buy milk'', completed = False,
       created_at = lit ''2024-01-01 10:00:00'', completed_at = None\<rparr>]"
proof -
  have s: "strip (lit '' buy milk '') = lit ''buy milk''"
    by (simp add: strip_def lit_def py_isspace_def)
  then have h: "strip (lit '' buy milk '') \<noteq> []"
    by (simp add: lit_def)
  have e: "utf8_encode (lit '' buy milk '') \<noteq> None"
    by (simp add: lit_def utf8_char_def)
  from add_task_appends [OF h, of "lit ''2024-01-01 10:00:00''" empty_app] h s e
  show ?thesis by (simp add: empty_app_def)
qed

text \<open>
  Claim C4 as stated, that \<open>add_task\<close> succeeds for every description whose stripped
  form is not empty, fails. For the description that is the one code point U+D800 the
  task is appended, and then \<open>print\<close> raises \<open>UnicodeEncodeError\<close> on the success
  line, which quotes the description: \<open>add_task\<close> does not return \<open>True\<close>.
\<close>

theorem add_task_surrogate_counterexample:
  "strip [0xD800] \<noteq> [] \<and>
   fst (add_task (lit ''2024-01-01 10:00:00'') [0xD800] empty_app) = Inl UnicodeEncodeError"
proof -
  have "strip [0xD800] = [0xD800]"
    by (simp add: strip_def py_isspace_def)
  moreover have "utf8_encode [0xD800] = None"
    by (simp add: utf8_char_def)
  ultimately show ?thesis
    by (simp add: add_task_def Let_def print_added)
qed

text \<open>
  Claim C5. For every description that is empty or all whitespace after stripping,
  such as the empty text or three spaces, \<open>add_task\<close> fails with the validation
  error and leaves the state as it was: no task is added, nothing is changed.
\<close>

theorem add_task_blank:
  assumes "strip d = []"
  shows "add_task now d app = (Inl ValidationError, app)"
  using assms by (simp add: add_task_def)

theorem add_task_blank_witness:
  "strip (lit ''   '') = [] \<and> strip [] = [] \<and>
   add_task (lit ''2024-01-01 10:00:00'') (lit ''   '') empty_app
     = (Inl ValidationError, empty_app) \<and>
   add_task (lit ''2024-01-01 10:00:00'') [] empty_app
     = (Inl ValidationError, empty_app)"
proof -
  have h1: "strip (lit ''   '') = []" and h2: "strip [] = []"
    by (simp_all add: strip_def lit_def py_isspace_def)
  from add_task_blank [OF h1] add_task_blank [OF h2] h1 h2 show ?thesis by simp
qed

subsection \<open>Removing\<close>

text \<open>
  Claim C6. \<open>remove_task\<close> fails with the invalid-argument error and changes nothing
  when the id does not parse as an integer; it fails with the not-found error and
  leaves the tasks unchanged when no task has the id; and when a task has the id, it
  removes the first such task: the length decreases by exactly 1 and the other tasks
  stay in their order. It then reports the description of the removed task, unless
  the success line cannot be printed.
\<close>

theorem remove_task_cases:
  "(to_int i = None \<longrightarrow> remove_task to_int i app = (Inl InvalidArgument, app)) \<and>
   (\<forall>n. to_int i = Some n \<longrightarrow>
      (n \<notin> id' ` set (tasks app) \<longrightarrow> remove_task to_int i app = (Inl (NotFound n), app)) \<and>
      (n \<in> id' ` set (tasks app) \<longrightarrow>
         (\<exists>k<length (tasks app).
            id' (tasks app ! k) = n \<and> (\<forall>j<k. id' (tasks app ! j) \<noteq> n) \<and>
            fst (remove_task to_int i app) =
              (if utf8_encode (description (tasks app ! k)) = None
               then Inl UnicodeEncodeError else Inr (description (tasks app ! k))) \<and>
            tasks (snd (remove_task to_int i app)) =
              take k (tasks app) @ drop (Suc k) (tasks app) \<and>
            length (tasks (snd (remove_task to_int i app))) = length (tasks app) - 1)))"
proof (intro conjI allI impI)
  assume "to_int i = None"
  then show "remove_task to_int i app = (Inl InvalidArgument, app)"
    by (simp add: remove_task_def)
next
  fix n
  assume "to_int i = Some n" "n \<notin> id' ` set (tasks app)"
  then show "remove_task to_int i app = (Inl (NotFound n), app)"
    by (simp add: remove_task_def find_task_None [symmetric])
next
  fix n
  assume n: "to_int i = Some n" and "n \<in> id' ` set (tasks app)"
  then obtain k where k: "find_task n (tasks app) = Some k"
    using find_task_exists by blast
  from find_task_Some [OF k]
  have props: "k < length (tasks app)" "id' (tasks app ! k) = n"
    "\<forall>j<k. id' (tasks app ! j) \<noteq> n"
    by simp_all
  have "fst (remove_task to_int i app) =
        (if utf8_encode (description (tasks app ! k)) = None
         then Inl UnicodeEncodeError else Inr (description (tasks app ! k)))"
    using n k by (simp add: remove_task_def print_removed)
  moreover have "tasks (snd (remove_task to_int i app)) =
      take k (tasks app) @ drop (Suc k) (tasks app)"
    using n k by (simp add: remove_task_def pop_def)
  moreover from this props(1)
  have "length (tasks (snd (remove_task to_int i app))) = length (tasks app) - 1"
    by simp
  ultimately show "\<exists>k<length (tasks app).
      id' (tasks app ! k) = n \<and> (\<forall>j<k. id' (tasks app ! j) \<noteq> n) \<and>
      fst (remove_task to_int i app) =
              (if utf8_encode (description (tasks app ! k)) = None
               then Inl UnicodeEncodeError else Inr (description (tasks app ! k))) \<and>
      tasks (snd (remove_task to_int i app)) =
        take k (tasks app) @ drop (Suc k) (tasks app) \<and>
      length (tasks (snd (remove_task to_int i app))) = length (tasks app) - 1"
    using props by blast
qed

theorem remove_task_cases_witness:
  "(let app = \<lparr>tasks = [\<lparr>id' = 1, description = lit ''a'', completed = False,
                          created_at = lit ''t'', completed_at = None\<rparr>,
                        \<lparr>id' = 2, description = lit ''b'', completed = False,
                          created_at = lit ''t'', completed_at = None\<rparr>],
                tasks_file = None\<rparr>
    in int_decimal (lit ''x'') = None \<and>
       remove_task int_decimal (lit ''x'') app = (Inl InvalidArgument, app) \<and>
       int_decimal (lit ''7'') = Some 7 \<and> 7 \<notin> id' ` set (tasks app) \<and>
       remove_task int_decimal (lit ''7'') app = (Inl (NotFound 7), app) \<and>
       int_decimal (lit ''2'') = Some 2 \<and> 2 \<in> id' ` set (tasks app) \<and>
       length (tasks (snd (remove_task int_decimal (lit ''2'') app))) = 1)"
proof -
  define app where "app = \<lparr>tasks = [\<lparr>id' = 1, description = lit ''a'', completed = False,
                          created_at = lit ''t'', completed_at = None\<rparr>,
                        \<lparr>id' = 2, description = lit ''b'', completed = False,
                          created_at = lit ''t'', completed_at = None\<rparr>],
                tasks_file = None\<rparr>"
  have x: "int_decimal (lit ''x'') = None"
    by (simp add: int_decimal_def lit_def)
  have seven: "int_decimal (lit ''7'') = Some 7" "7 \<notin> id' ` set (tasks app)"
    by (simp_all add: int_decimal_def lit_def app_def)
  have two: "int_decimal (lit ''2'') = Some 2" "2 \<in> id' ` set (tasks app)"
    by (simp_all add: int_decimal_def lit_def app_def)
  have len: "length (tasks app) = 2"
    by (simp add: app_def)
  from remove_task_cases [of int_decimal "lit ''x''" app] x
  have a: "remove_task int_decimal (lit ''x'') app = (Inl InvalidArgument, app)"
    by blast
  from remove_task_cases [of int_decimal "lit ''7''" app] seven
  have b: "remove_task int_decimal (lit ''7'') app = (Inl (NotFound 7), app)"
    by blast
  from remove_task_cases [of int_decimal "lit ''2''" app] two
  have "length (tasks (snd (remove_task int_decimal (lit ''2'') app))) = length (tasks app) - 1"
    by blast
  with len have c: "length (tasks (snd (remove_task int_decimal (lit ''2'') app))) = 1"
    by simp
  from x seven two a b c show ?thesis
    unfolding Let_def app_def [symmetric] by blast
qed

subsection \<open>Completing\<close>

text \<open>
  Claim C7, as the code has it. \<open>mark_completed\<close> on the id of an existing task sets
  \<open>completed\<close> and \<open>completed_at\<close> of the first task with that id; a second call with
  the same id finds the task again (it fails neither with the invalid-argument nor
  with the not-found error), leaves \<open>completed\<close> true and overwrites \<open>completed_at\<close>
  with the time of the second call; the \<open>completed\<close> flags of all tasks are the same
  after the second call as after the first. Both calls succeed, printing the success
  line and returning \<open>True\<close>, whenever the description of the task can be encoded in
  UTF-8, that is, holds no surrogate code point.
\<close>

theorem mark_completed_again:
  assumes "to_int i = Some n" and "n \<in> id' ` set (tasks app)"
  shows "\<exists>k<length (tasks app).
           id' (tasks app ! k) = n \<and> (\<forall>j<k. id' (tasks app ! j) \<noteq> n) \<and>
           (let r1 = mark_completed to_int now1 i app;
                r2 = mark_completed to_int now2 i (snd r1)
            in completed (tasks (snd r1) ! k) \<and>
               completed_at (tasks (snd r1) ! k) = Some now1 \<and>
               fst r2 \<noteq> Inl InvalidArgument \<and> fst r2 \<noteq> Inl (NotFound n) \<and>
               completed (tasks (snd r2) ! k) \<and>
               completed_at (tasks (snd r2) ! k) = Some now2 \<and>
               map completed (tasks (snd r2)) = map completed (tasks (snd r1)) \<and>
               (utf8_encode (description (tasks app ! k)) \<noteq> None \<longrightarrow>
                  fst r1 = Inr (description (tasks app ! k)) \<and>
                  fst r2 = Inr (description (tasks app ! k))))"
proof -
  let ?ts = "tasks app"
  let ?d = "description (?ts ! k)"
  from assms(2) obtain k where k: "find_task n ?ts = Some k"
    using find_task_exists by blast
  from find_task_Some [OF k]
  have props: "k < length ?ts" "id' (?ts ! k) = n" "\<forall>j<k. id' (?ts ! j) \<noteq> n"
    by simp_all
  define d where "d = description (?ts ! k)"
  define u where "u = (?ts ! k)\<lparr>completed := True, completed_at := Some now1\<rparr>"
  define app1 where "app1 = snd (mark_completed to_int now1 i app)"
  have r1: "fst (mark_completed to_int now1 i app) =
      (if utf8_encode d = None then Inl UnicodeEncodeError else Inr d)"
    using assms(1) k by (simp add: d_def mark_completed_def complete_first_Some print_completed)
  have ts1: "tasks app1 = ?ts[k := u]"
    using assms(1) k by (simp add: app1_def u_def mark_completed_def complete_first_Some)
  have k1: "find_task n (tasks app1) = Some k"
    using k props(1) by (simp add: ts1 u_def find_task_list_update)
  define v where "v = (tasks app1 ! k)\<lparr>completed := True, completed_at := Some now2\<rparr>"
  have r2: "fst (mark_completed to_int now2 i app1) =
      (if utf8_encode d = None then Inl UnicodeEncodeError else Inr d)"
    using assms(1) k1 props(1)
    by (simp add: d_def mark_completed_def complete_first_Some ts1 u_def print_completed)
  have ts2: "tasks (snd (mark_completed to_int now2 i app1)) = (tasks app1)[k := v]"
    using assms(1) k1 by (simp add: v_def mark_completed_def complete_first_Some)
  have len1: "k < length (tasks app1)"
    using props(1) by (simp add: ts1)
  have c1: "completed (tasks app1 ! k)" "completed_at (tasks app1 ! k) = Some now1"
    using props(1) by (simp_all add: ts1 u_def)
  have c2: "completed ((tasks app1)[k := v] ! k)"
    "completed_at ((tasks app1)[k := v] ! k) = Some now2"
    using len1 by (simp_all add: v_def)
  have same: "map completed ((tasks app1)[k := v]) = map completed (tasks app1)"
    using len1 c1(1) by (simp add: list_eq_iff_nth_eq nth_list_update v_def)
  have found: "fst (mark_completed to_int now2 i app1) \<noteq> Inl InvalidArgument"
    "fst (mark_completed to_int now2 i app1) \<noteq> Inl (NotFound n)"
    by (simp_all add: r2)
  have ok: "utf8_encode d \<noteq> None \<longrightarrow>
      fst (mark_completed to_int now1 i app) = Inr d \<and>
      fst (mark_completed to_int now2 i app1) = Inr d"
    by (simp add: r1 r2)
  show ?thesis
    unfolding Let_def app1_def [symmetric]
    using props found ok [unfolded d_def] c1 c2 same unfolding ts2 [symmetric]
    by blast
qed

theorem mark_completed_again_witness:
  "(let app = \<lparr>tasks = [\<lparr>id' = 1, description = lit ''a'', completed = False,
                          created_at = lit ''t'', completed_at = None\<rparr>],
                tasks_file = None\<rparr>;
        r1 = mark_completed int_decimal (lit ''u'') (lit ''1'') app;
        r2 = mark_completed int_decimal (lit ''v'') (lit ''1'') (snd r1)
    in int_decimal (lit ''1'') = Some 1 \<and> 1 \<in> id' ` set (tasks app) \<and>
       utf8_encode (description (tasks app ! 0)) \<noteq> None \<and>
       fst r1 = Inr (lit ''a'') \<and> completed_at (tasks (snd r1) ! 0) = Some (lit ''u'') \<and>
       fst r2 = Inr (lit ''a'') \<and> completed (tasks (snd r2) ! 0) \<and>
       completed_at (tasks (snd r2) ! 0) = Some (lit ''v''))"
proof -
  define app where "app = \<lparr>tasks = [\<lparr>id' = 1, description = lit ''a'', completed = False,
                          created_at = lit ''t'', completed_at = None\<rparr>],
                tasks_file = None\<rparr>"
  have one: "int_decimal (lit ''1'') = Some 1" "1 \<in> id' ` set (tasks app)"
    by (simp_all add: int_decimal_def lit_def app_def)
  have ts: "length (tasks app) = 1" "description (tasks app ! 0) = lit ''a''"
    by (simp_all add: app_def)
  have e: "utf8_encode (description (tasks app ! 0)) \<noteq> None"
    by (simp add: app_def lit_def utf8_char_def)
  from mark_completed_again [of int_decimal "lit ''1''" 1 app "lit ''u''" "lit ''v''", OF one]
    ts one e
  show ?thesis
    unfolding Let_def app_def [symmetric] by auto
qed

text \<open>
  Claim C7 as stated, that completing an existing task and completing it again both
  succeed, fails. For a task whose description is the one code point U+D800 (a file
  may carry it as an escape, which \<open>load_tasks\<close> accepts) each call updates the task
  and then \<open>print\<close> raises \<open>UnicodeEncodeError\<close> on the success line, which quotes the
  description: neither call returns \<open>True\<close>.
\<close>

theorem mark_completed_surrogate_counterexample:
  "1 \<in> id' ` set (tasks \<lparr>tasks = [\<lparr>id' = 1, description = [0xD800], completed = False,
                                     created_at = lit ''t'', completed_at = None\<rparr>],
                          tasks_file = None\<rparr>) \<and>
   fst (mark_completed int_decimal (lit ''u'') (lit ''1'')
          \<lparr>tasks = [\<lparr>id' = 1, description = [0xD800], completed = False,
                      created_at = lit ''t'', completed_at = None\<rparr>],
           tasks_file = None\<rparr>) = Inl UnicodeEncodeError \<and>
   fst (mark_completed int_decimal (lit ''v'') (lit ''1'')
          (snd (mark_completed int_decimal (lit ''u'') (lit ''1'')
                  \<lparr>tasks = [\<lparr>id' = 1, description = [0xD800], completed = False,
                              created_at = lit ''t'', completed_at = None\<rparr>],
                   tasks_file = None\<rparr>))) = Inl UnicodeEncodeError"
proof -
  have one: "int_decimal (lit ''1'') = Some 1"
    by (simp add: int_decimal_def lit_def)
  show ?thesis
    by (simp add: mark_completed_def one print_completed utf8_char_def)
qed

text \<open>
  Claim C10. A successful \<open>mark_completed\<close> changes only the first task whose id
  matches, and of that task only \<open>completed\<close> and \<open>completed_at\<close>: its id, description
  and \<open>created_at\<close>, every other task (a later task with the same id included), and
  the length and order of the list are unchanged.
\<close>

theorem mark_completed_frame:
  assumes "mark_completed to_int now i app = (Inr d, app')"
  shows "\<exists>n k. to_int i = Some n \<and> k < length (tasks app) \<and>
           id' (tasks app ! k) = n \<and> (\<forall>j<k. id' (tasks app ! j) \<noteq> n) \<and>
           tasks app' =
             (tasks app)[k := (tasks app ! k)\<lparr>completed := True, completed_at := Some now\<rparr>]"
proof -
  from assms obtain n where n: "to_int i = Some n"
    by (cases "to_int i") (auto simp: mark_completed_def)
  from assms n obtain k where k: "find_task n (tasks app) = Some k"
    by (cases "find_task n (tasks app)")
       (auto simp: mark_completed_def complete_first_None)
  from assms n k have "tasks app' =
      (tasks app)[k := (tasks app ! k)\<lparr>completed := True, completed_at := Some now\<rparr>]"
    by (auto simp: mark_completed_def complete_first_Some)
  with n find_task_Some [OF k] show ?thesis by blast
qed

theorem mark_completed_frame_witness:
  "(let t1 = \<lparr>id' = 2, description = lit ''a'', completed = False,
               created_at = lit ''t'', completed_at = None\<rparr>;
        t2 = \<lparr>id' = 2, description = lit ''b'', completed = False,
               created_at = lit ''t'', completed_at = None\<rparr>;
        app = \<lparr>tasks = [t1, t2], tasks_file = None\<rparr>;
        app' = save_tasks
          (app\<lparr>tasks := [t1\<lparr>completed := True, completed_at := Some (lit ''u'')\<rparr>, t2]\<rparr>)
    in mark_completed int_decimal (lit ''u'') (lit ''2'') app = (Inr (lit ''a''), app') \<and>
       (\<exists>n k. int_decimal (lit ''2'') = Some n \<and> k < length (tasks app) \<and>
          id' (tasks app ! k) = n \<and> (\<forall>j<k. id' (tasks app ! j) \<noteq> n) \<and>
          tasks app' = (tasks app)[k := (tasks app ! k)\<lparr>completed := True,
                                                       completed_at := Some (lit ''u'')\<rparr>]))"
proof -
  define t1 where "t1 = \<lparr>id' = 2, description = lit ''a'', completed = False,
               created_at = lit ''t'', completed_at = None\<rparr>"
  define t2 where "t2 = \<lparr>id' = 2, description = lit ''b'', completed = False,
               created_at = lit ''t'', completed_at = None\<rparr>"
  define app where "app = \<lparr>tasks = [t1, t2], tasks_file = None\<rparr>"
  define app' where "app' = save_tasks
    (app\<lparr>tasks := [t1\<lparr>completed := True, completed_at := Some (lit ''u'')\<rparr>, t2]\<rparr>)"
  have two: "int_decimal (lit ''2'') = Some 2"
    by (simp add: int_decimal_def lit_def)
  have e: "utf8_encode (lit ''a'') \<noteq> None"
    by (simp add: lit_def utf8_char_def)
  have h: "mark_completed int_decimal (lit ''u'') (lit ''2'') app = (Inr (lit ''a''), app')"
    using e by (simp add: mark_completed_def two app_def app'_def t1_def print_completed)
  from mark_completed_frame [OF h] h show ?thesis
    unfolding Let_def t1_def [symmetric] t2_def [symmetric] app_def [symmetric]
      app'_def [symmetric]
    by blast
qed

subsection \<open>Clearing the completed tasks\<close>




subsection \<open>Statistics\<close>

text \<open>
  Claim C2, as the code has it. On a state without tasks \<open>show_stats\<close> reports only
  that no tasks are available; it computes and reports no total, completed, pending or
  completion rate, and so divides by nothing.
\<close>

theorem show_stats_empty: "show_stats \<lparr>tasks = [], tasks_file = f\<rparr> = NoTasksAvailable"
  by (simp add: show_stats_def)

text \<open>
  Claim C2 as stated fails: on the empty store the report is not the four figures
  total = 0, completed = 0, pending = 0, completion rate = 0.
\<close>

theorem show_stats_empty_counterexample:
  "show_stats empty_app \<noteq>
     Statistics \<lparr>total = 0, completed_n = 0, pending = 0, completion_rate = 0\<rparr>"
  by (simp add: show_stats_def empty_app_def)

subsection \<open>Ids\<close>

text \<open>
  Claim C1. The id is meant to be unique among the tasks in the list. The run below,
  from the empty store, adds two tasks, removes the first and adds a third: the new
  id is the length plus 1, which is the id of the task that is still there.
\<close>

theorem duplicate_id_after_remove:
  "map id' (tasks (run int_decimal
      [Add (lit ''2024-01-01 10:00:00'') (lit ''buy milk''),
       Add (lit ''2024-01-01 10:00:01'') (lit ''pay bills''),
       Remove (lit ''1''),
       Add (lit ''2024-01-01 10:00:02'') (lit ''call home'')] empty_app)) = [2, 2]"
  by (simp add: add_task_def remove_task_def empty_app_def Let_def strip_def lit_def
      py_isspace_def int_decimal_def pop_def)

subsection \<open>The completion time\<close>

text \<open>
  Claim C9. In every state reached from the empty store by adding, removing,
  completing and clearing, a task that is not completed has no \<open>completed_at\<close>. And
  whatever command comes next, the tasks of the former list that are still there
  afterwards are, in their order, tasks with the same id, description and
  \<open>created_at\<close>, still completed if they were, and still with a \<open>completed_at\<close> if they
  had one: no command clears it.
\<close>

theorem completed_at_lifecycle:
  "(\<forall>t\<in>set (tasks (run to_int cs empty_app)). \<not> completed t \<longrightarrow> completed_at t = None) \<and>
   list_emb (\<lambda>t' t. id' t' = id' t \<and> description t' = description t \<and>
                     created_at t' = created_at t \<and> (completed t \<longrightarrow> completed t') \<and>
                     (completed_at t \<noteq> None \<longrightarrow> completed_at t' \<noteq> None))
     (take (length (tasks (run to_int cs empty_app)))
        (tasks (step to_int c (run to_int cs empty_app))))
     (tasks (run to_int cs empty_app))"
proof
  have "\<forall>t\<in>set (tasks empty_app). \<not> completed t \<longrightarrow> completed_at t = None"
    by (simp add: empty_app_def)
  then show "\<forall>t\<in>set (tasks (run to_int cs empty_app)).
      \<not> completed t \<longrightarrow> completed_at t = None"
    by (rule run_pending_no_stamp)
next
  show "list_emb (\<lambda>t' t. id' t' = id' t \<and> description t' = description t \<and>
                     created_at t' = created_at t \<and> (completed t \<longrightarrow> completed t') \<and>
                     (completed_at t \<noteq> None \<longrightarrow> completed_at t' \<noteq> None))
     (take (length (tasks (run to_int cs empty_app)))
        (tasks (step to_int c (run to_int cs empty_app))))
     (tasks (run to_int cs empty_app))"
    by (rule step_keeps_tasks) simp_all
qed

theorem completed_at_lifecycle_witness:
  "(let app = run int_decimal
        [Add (lit ''2024-01-01 10:00:00'') (lit ''buy milk''),
         Add (lit ''2024-01-01 10:00:01'') (lit ''pay bills''),
         Complete (lit ''2024-01-01 10:00:02'') (lit ''1'')] empty_app
    in tasks app ! 1 \<in> set (tasks app) \<and> \<not> completed (tasks app ! 1) \<and>
       completed_at (tasks app ! 1) = None \<and>
       completed_at (tasks app ! 0) \<noteq> None \<and>
       list_emb (\<lambda>t' t. id' t' = id' t \<and> description t' = description t \<and>
                     created_at t' = created_at t \<and> (completed t \<longrightarrow> completed t') \<and>
                     (completed_at t \<noteq> None \<longrightarrow> completed_at t' \<noteq> None))
         (take (length (tasks app)) (tasks (step int_decimal (Remove (lit ''2'')) app)))
         (tasks app))"
proof -
  define cs where "cs =
        [Add (lit ''2024-01-01 10:00:00'') (lit ''buy milk''),
         Add (lit ''2024-01-01 10:00:01'') (lit ''pay bills''),
         Complete (lit ''2024-01-01 10:00:02'') (lit ''1'')]"
  define app where "app = run int_decimal cs empty_app"
  have ts: "tasks app =
      [\<lparr>id' = 1, description = lit ''buy milk'', completed = True,
         created_at = lit ''2024-01-01 10:00:00'',
         completed_at = Some (lit ''2024-01-01 10:00:02'')\<rparr>,
       \<lparr>id' = 2, description = lit ''pay bills'', completed = False,
         created_at = lit ''2024-01-01 10:00:01'', completed_at = None\<rparr>]"
    by (simp add: app_def cs_def add_task_def mark_completed_def empty_app_def Let_def
        strip_def lit_def py_isspace_def int_decimal_def)
  have mem: "tasks app ! 1 \<in> set (tasks app)" and pend: "\<not> completed (tasks app ! 1)"
    and stamp: "completed_at (tasks app ! 0) \<noteq> None"
    by (simp_all add: ts)
  from completed_at_lifecycle [of int_decimal cs "Remove (lit ''2'')"] mem pend stamp
  show ?thesis
    unfolding Let_def cs_def [symmetric] app_def [symmetric] by blast
qed

section \<open>Saving and loading\<close>

subsection \<open>The scanner never runs out of fuel\<close>

text \<open>
  Every call of the scanner that returns a value has consumed at least one character,
  so twice the length of the text plus one is fuel enough: \<open>json_loads\<close> always
  returns a value or a decoding error, and \<open>load_tasks\<close> always has a result.
\<close>

lemma length_skip_ws: "length (skip_ws s) \<le> length s"
  by (simp add: skip_ws_def length_dropWhile_le)

lemma scanstring_shorter: "scanstring s = Some (t, r) \<Longrightarrow> length r < length s"
proof (induction s arbitrary: t r rule: scanstring.induct)
  case 1
  then show ?case by simp
next
  case (2 c s)
  show ?case
  proof (cases "c = 34")
    case True
    with "2.prems" show ?thesis by simp
  next
    case nq: False
    show ?thesis
    proof (cases "c = 92")
      case True
      show ?thesis
      proof (cases s)
        case Nil
        with True nq "2.prems" show ?thesis by simp
      next
        case (Cons esc r0)
        show ?thesis
        proof (cases "esc = 117")
          case u: True
          from "2.prems" nq True Cons u obtain ch k t' where
            ue: "unicode_escape r0 = Some (ch, k)"
            and rec: "scanstring (drop k r0) = Some (t', r)"
            by (auto split: option.splits)
          from "2.IH"(1) [OF nq True Cons u ue refl rec]
          have "length r < length (drop k r0)" .
          with Cons show ?thesis by simp
        next
          case nu: False
          from "2.prems" nq True Cons nu obtain ch t' where
            b: "backslash esc = Some ch" and rec: "scanstring r0 = Some (t', r)"
            by (auto split: option.splits)
          from "2.IH"(2) [OF nq True Cons nu b rec]
          have "length r < length r0" .
          with Cons show ?thesis by simp
        qed
      qed
    next
      case nb: False
      from "2.prems" nq nb obtain t' where
        ge: "\<not> c < 32" and rec: "scanstring s = Some (t', r)"
        by (auto split: if_splits)
      from "2.IH"(3) [OF nq nb ge rec] show ?thesis by simp
    qed
  qed
qed

lemma match_integer_shorter: "match_integer s = Some (i, r) \<Longrightarrow> length r < length s"
  by (auto simp: match_integer_def length_dropWhile_le less_Suc_eq_le split: list.splits if_splits)

lemma match_frac_shorter: "match_frac s = (f, r) \<Longrightarrow> length r \<le> length s"
  by (auto simp: match_frac_def length_dropWhile_le le_SucI split: list.splits if_splits)

lemma match_exp_shorter: "match_exp s = (e, r) \<Longrightarrow> length r \<le> length s"
proof -
  have d: "length (dropWhile is_digit x) \<le> length x"
    "length (dropWhile is_digit x) \<le> Suc (length x)"
    "length (dropWhile is_digit x) \<le> Suc (Suc (length x))" for x :: pystr
    using length_dropWhile_le [of is_digit x] by simp_all
  show "match_exp s = (e, r) \<Longrightarrow> length r \<le> length s"
    by (auto simp: match_exp_def Let_def d split: list.splits if_splits)
qed

lemma match_number_shorter:
  assumes "match_number s = Some (v, r)"
  shows "length r < length s"
proof -
  define s1 where "s1 = (case s of [] \<Rightarrow> s | c # r \<Rightarrow> if c = 45 then r else s)"
  have s1: "length s1 \<le> length s"
    by (auto simp: s1_def split: list.splits)
  from assms obtain i s2 where mi: "match_integer s1 = Some (i, s2)"
    by (auto simp: match_number_def s1_def Let_def split: list.splits if_splits option.splits)
  obtain f s3 where mf: "match_frac s2 = (f, s3)" by (cases "match_frac s2")
  obtain e s4 where me: "match_exp s3 = (e, s4)" by (cases "match_exp s3")
  from assms mi mf me have "r = s4"
    by (auto simp: match_number_def s1_def Let_def split: list.splits if_splits)
  with match_integer_shorter [OF mi] match_frac_shorter [OF mf] match_exp_shorter [OF me] s1
  show ?thesis by simp
qed

lemma scan_once_step:
  assumes B: "\<And>s. (2 * length s + 1 < n \<longrightarrow> array_values n s \<noteq> OutOfFuel) \<and>
        (\<forall>v r. array_values n s = Parsed v r \<longrightarrow> length r < length s)"
    and C: "\<And>s. (2 * length s + 1 < n \<longrightarrow> object_pairs n s \<noteq> OutOfFuel) \<and>
        (\<forall>v r. object_pairs n s = Parsed v r \<longrightarrow> length r < length s)"
  shows "(2 * length s < Suc n \<longrightarrow> scan_once (Suc n) s \<noteq> OutOfFuel) \<and>
        (\<forall>v r. scan_once (Suc n) s = Parsed v r \<longrightarrow> length r < length s)"
proof (cases s)
  case Nil
  then show ?thesis by simp
next
  case (Cons c r0)
  consider (str) "c = 34" | (obj) "c = 123" | (arr) "c = 91"
    | (other) "c \<noteq> 34" "c \<noteq> 123" "c \<noteq> 91"
    by blast
  then show ?thesis
  proof cases
    case str
    with Cons show ?thesis
      by (auto split: option.splits dest: scanstring_shorter)
  next
    case obj
    show ?thesis
    proof (cases "skip_ws r0")
      case Nil
      with Cons obj show ?thesis by simp
    next
      case inner: (Cons d rest)
      have len: "Suc (length rest) \<le> length r0"
        using length_skip_ws [of r0] inner by simp
      show ?thesis
      proof (cases "d = 125")
        case True
        with Cons obj inner len show ?thesis by auto
      next
        case False
        from C [of "d # rest"] len
        have "2 * length s < Suc n \<longrightarrow> object_pairs n (d # rest) \<noteq> OutOfFuel"
          and "\<forall>v r. object_pairs n (d # rest) = Parsed v r \<longrightarrow> length r < length s"
          using Cons by auto
        with Cons obj inner False show ?thesis
          by (auto split: scan.splits)
      qed
    qed
  next
    case arr
    show ?thesis
    proof (cases "skip_ws r0")
      case Nil
      with Cons arr show ?thesis by simp
    next
      case inner: (Cons d rest)
      have len: "Suc (length rest) \<le> length r0"
        using length_skip_ws [of r0] inner by simp
      show ?thesis
      proof (cases "d = 93")
        case True
        with Cons arr inner len show ?thesis by auto
      next
        case False
        from B [of "d # rest"] len
        have "2 * length s < Suc n \<longrightarrow> array_values n (d # rest) \<noteq> OutOfFuel"
          and "\<forall>v r. array_values n (d # rest) = Parsed v r \<longrightarrow> length r < length s"
          using Cons by auto
        with Cons arr inner False show ?thesis
          by (auto split: scan.splits)
      qed
    qed
  next
    case other
    have "scan_once (Suc n) s \<noteq> OutOfFuel"
      using Cons other by (simp split: option.splits)
    moreover have "length r < length s" if "scan_once (Suc n) s = Parsed v r" for v r
    proof -
      have d: "length (drop k s) < length s" if "0 < k" for k
        using that Cons by simp
      from that Cons other show ?thesis
        using d [of 3] d [of 4] d [of 5] d [of 8] d [of 9]
        by (auto simp del: length_drop drop_Suc_Cons split: if_splits option.splits
            dest: match_number_shorter)
    qed
    ultimately show ?thesis by blast
  qed
qed

lemma array_values_step:
  assumes A: "\<And>s. (2 * length s < n \<longrightarrow> scan_once n s \<noteq> OutOfFuel) \<and>
        (\<forall>v r. scan_once n s = Parsed v r \<longrightarrow> length r < length s)"
    and B: "\<And>s. (2 * length s + 1 < n \<longrightarrow> array_values n s \<noteq> OutOfFuel) \<and>
        (\<forall>v r. array_values n s = Parsed v r \<longrightarrow> length r < length s)"
  shows "(2 * length s + 1 < Suc n \<longrightarrow> array_values (Suc n) s \<noteq> OutOfFuel) \<and>
        (\<forall>v r. array_values (Suc n) s = Parsed v r \<longrightarrow> length r < length s)"
proof (cases "scan_once n s")
  case OutOfFuel
  with A [of s] show ?thesis by auto
next
  case DecodeError
  then show ?thesis by simp
next
  case (Parsed v r)
  with A [of s] have r: "length r < length s" by simp
  show ?thesis
  proof (cases "skip_ws r")
    case Nil
    with Parsed show ?thesis by simp
  next
    case (Cons c rest)
    have len: "Suc (length rest) \<le> length r"
      using length_skip_ws [of r] Cons by simp
    have len2: "length (skip_ws rest) \<le> length rest"
      by (rule length_skip_ws)
    consider (close) "c = 93" | (comma) "c = 44" | (bad) "c \<noteq> 93" "c \<noteq> 44"
      by blast
    then show ?thesis
    proof cases
      case close
      with Parsed Cons len r show ?thesis by auto
    next
      case comma
      from B [of "skip_ws rest"] len len2 r
      have "2 * length s + 1 < Suc n \<longrightarrow> array_values n (skip_ws rest) \<noteq> OutOfFuel"
        and "\<forall>v r. array_values n (skip_ws rest) = Parsed v r \<longrightarrow> length r < length s"
        by auto
      with Parsed Cons comma show ?thesis
        by (auto split: scan.splits)
    next
      case bad
      with Parsed Cons show ?thesis by simp
    qed
  qed
qed

lemma object_pairs_step:
  assumes A: "\<And>s. (2 * length s < n \<longrightarrow> scan_once n s \<noteq> OutOfFuel) \<and>
        (\<forall>v r. scan_once n s = Parsed v r \<longrightarrow> length r < length s)"
    and C: "\<And>s. (2 * length s + 1 < n \<longrightarrow> object_pairs n s \<noteq> OutOfFuel) \<and>
        (\<forall>v r. object_pairs n s = Parsed v r \<longrightarrow> length r < length s)"
  shows "(2 * length s + 1 < Suc n \<longrightarrow> object_pairs (Suc n) s \<noteq> OutOfFuel) \<and>
        (\<forall>v r. object_pairs (Suc n) s = Parsed v r \<longrightarrow> length r < length s)"
proof (cases s)
  case Nil
  then show ?thesis by simp
next
  case s: (Cons q r0)
  show ?thesis
  proof (cases "q = 34")
    case False
    with s show ?thesis by simp
  next
    case q: True
    show ?thesis
    proof (cases "scanstring r0")
      case None
      with s q show ?thesis by simp
    next
      case (Some kr)
      obtain key r1 where kr: "kr = (key, r1)" by (cases kr)
      from Some kr have r1: "length r1 < length r0"
        by (auto dest: scanstring_shorter)
      show ?thesis
      proof (cases "skip_ws r1")
        case Nil
        with s q Some kr show ?thesis by simp
      next
        case colon: (Cons c r2)
        have r2: "Suc (length r2) \<le> length r1"
          using length_skip_ws [of r1] colon by simp
        show ?thesis
        proof (cases "c = 58")
          case False
          with s q Some kr colon show ?thesis by simp
        next
          case c: True
          have r2': "length (skip_ws r2) \<le> length r2"
            by (rule length_skip_ws)
          show ?thesis
          proof (cases "scan_once n (skip_ws r2)")
            case OutOfFuel
            with A [of "skip_ws r2"] have "\<not> 2 * length (skip_ws r2) < n" by auto
            with r1 r2 r2' s have "\<not> 2 * length s + 1 < Suc n" by simp
            with s q Some kr colon c OutOfFuel show ?thesis by simp
          next
            case DecodeError
            with s q Some kr colon c show ?thesis by simp
          next
            case (Parsed v r3)
            with A [of "skip_ws r2"] have r3: "length r3 < length (skip_ws r2)" by simp
            show ?thesis
            proof (cases "skip_ws r3")
              case Nil
              with s q Some kr colon c Parsed show ?thesis by simp
            next
              case nxt: (Cons d rest)
              have rest: "Suc (length rest) \<le> length r3"
                using length_skip_ws [of r3] nxt by simp
              have rest': "length (skip_ws rest) \<le> length rest"
                by (rule length_skip_ws)
              consider (close) "d = 125" | (comma) "d = 44" | (bad) "d \<noteq> 125" "d \<noteq> 44"
                by blast
              then show ?thesis
              proof cases
                case close
                with s q Some kr colon c Parsed nxt rest r3 r2' r2 r1 show ?thesis by auto
              next
                case comma
                from C [of "skip_ws rest"] rest rest' r3 r2' r2 r1 s
                have "2 * length s + 1 < Suc n \<longrightarrow> object_pairs n (skip_ws rest) \<noteq> OutOfFuel"
                  and "\<forall>v r. object_pairs n (skip_ws rest) = Parsed v r \<longrightarrow>
                    length r < length s"
                  by auto
                with s q Some kr colon c Parsed nxt comma show ?thesis
                  by (auto split: scan.splits)
              next
                case bad
                with s q Some kr colon c Parsed nxt show ?thesis by simp
              qed
            qed
          qed
        qed
      qed
    qed
  qed
qed

lemma scan_fuel:
  "(\<forall>s. (2 * length s < n \<longrightarrow> scan_once n s \<noteq> OutOfFuel) \<and>
        (\<forall>v r. scan_once n s = Parsed v r \<longrightarrow> length r < length s)) \<and>
   (\<forall>s. (2 * length s + 1 < n \<longrightarrow> array_values n s \<noteq> OutOfFuel) \<and>
        (\<forall>v r. array_values n s = Parsed v r \<longrightarrow> length r < length s)) \<and>
   (\<forall>s. (2 * length s + 1 < n \<longrightarrow> object_pairs n s \<noteq> OutOfFuel) \<and>
        (\<forall>v r. object_pairs n s = Parsed v r \<longrightarrow> length r < length s))"
proof (induction n)
  case 0
  then show ?case by simp
next
  case (Suc n)
  then have A: "\<And>s. (2 * length s < n \<longrightarrow> scan_once n s \<noteq> OutOfFuel) \<and>
        (\<forall>v r. scan_once n s = Parsed v r \<longrightarrow> length r < length s)"
    and B: "\<And>s. (2 * length s + 1 < n \<longrightarrow> array_values n s \<noteq> OutOfFuel) \<and>
        (\<forall>v r. array_values n s = Parsed v r \<longrightarrow> length r < length s)"
    and C: "\<And>s. (2 * length s + 1 < n \<longrightarrow> object_pairs n s \<noteq> OutOfFuel) \<and>
        (\<forall>v r. object_pairs n s = Parsed v r \<longrightarrow> length r < length s)"
    by blast+
  show ?case
    using scan_once_step [OF B C] array_values_step [OF A B] object_pairs_step [OF A C]
    by blast
qed

lemma json_loads_returns: "json_loads s \<noteq> OutOfFuel"
proof -
  have "length (skip_ws s) \<le> length s" by (rule length_skip_ws)
  then have "2 * length (skip_ws s) < 2 * length s + 1" by simp
  with scan_fuel [of "2 * length s + 1"]
  have "scan_once (2 * length s + 1) (skip_ws s) \<noteq> OutOfFuel" by blast
  then show ?thesis
    by (simp add: json_loads_def split: scan.splits del: scan_once.simps)
qed

lemma load_tasks_returns: "load_tasks f \<noteq> NoResult"
  using json_loads_returns
  by (auto simp: load_tasks_def Let_def split: option.splits scan.splits json.splits)

subsection \<open>UTF-8: decoding what was encoded\<close>

lemma unat_byte: "n < 256 \<Longrightarrow> unat (of_nat n :: byte) = n"
  by (simp add: unat_of_nat)

lemma utf8_decode_bytes1:
  "unat b0 < 0x80 \<Longrightarrow>
   utf8_decode (b0 # rest) = map_option ((#) (unat b0)) (utf8_decode rest)"
  by (simp add: Let_def)

lemma utf8_decode_bytes2:
  assumes "unat b0 = 0xC0 + h" "unat b1 = 0x80 + l" "2 \<le> h" "h < 32" "l < 64"
  shows "utf8_decode (b0 # b1 # rest) = map_option ((#) (h * 64 + l)) (utf8_decode rest)"
  using assms by (simp add: Let_def is_continuation_def)

lemma utf8_decode_bytes3:
  assumes "unat b0 = 0xE0 + h" "unat b1 = 0x80 + m" "unat b2 = 0x80 + l"
    "h < 16" "m < 64" "l < 64" "0x800 \<le> h * 4096 + m * 64 + l"
    "\<not> (0xD800 \<le> h * 4096 + m * 64 + l \<and> h * 4096 + m * 64 + l \<le> 0xDFFF)"
  shows "utf8_decode (b0 # b1 # b2 # rest)
           = map_option ((#) (h * 4096 + m * 64 + l)) (utf8_decode rest)"
  using assms by (simp add: Let_def is_continuation_def)

lemma utf8_decode_bytes4:
  assumes "unat b0 = 0xF0 + g" "unat b1 = 0x80 + h" "unat b2 = 0x80 + m" "unat b3 = 0x80 + l"
    "g < 5" "h < 64" "m < 64" "l < 64"
    "0x10000 \<le> g * 262144 + h * 4096 + m * 64 + l"
    "g * 262144 + h * 4096 + m * 64 + l < 0x110000"
  shows "utf8_decode (b0 # b1 # b2 # b3 # rest)
           = map_option ((#) (g * 262144 + h * 4096 + m * 64 + l)) (utf8_decode rest)"
  using assms by (simp add: Let_def is_continuation_def)

lemma split64: "(c::nat) = c div 64 * 64 + c mod 64"
  by simp

lemma split4096: "(c::nat) = c div 4096 * 4096 + c div 64 mod 64 * 64 + c mod 64"
proof -
  have "c div 64 = c div 64 div 64 * 64 + c div 64 mod 64" by simp
  moreover have "c div 64 div 64 = c div 4096" by (simp add: div_mult2_eq)
  ultimately have "c div 64 = c div 4096 * 64 + c div 64 mod 64" by simp
  with split64 [of c] show ?thesis by arith
qed

lemma split262144:
  "(c::nat) = c div 262144 * 262144 + c div 4096 mod 64 * 4096 + c div 64 mod 64 * 64 + c mod 64"
proof -
  have "c div 4096 = c div 4096 div 64 * 64 + c div 4096 mod 64" by simp
  moreover have "c div 4096 div 64 = c div 262144" by (simp add: div_mult2_eq)
  ultimately have "c div 4096 = c div 262144 * 64 + c div 4096 mod 64" by simp
  with split4096 [of c] show ?thesis by arith
qed

lemma utf8_decode_char:
  assumes "utf8_char c = Some bs"
  shows "utf8_decode (bs @ rest) = map_option ((#) c) (utf8_decode rest)"
proof -
  consider (a) "c < 0x80" | (b) "0x80 \<le> c" "c < 0x800"
    | (c) "0x800 \<le> c" "c < 0x10000" | (d) "0x10000 \<le> c"
    by linarith
  then show ?thesis
  proof cases
    case a
    then have bs: "bs = [of_nat c]" using assms by (simp add: utf8_char_def)
    have u: "unat (of_nat c :: byte) = c" using a by (intro unat_byte) linarith
    show ?thesis
      unfolding bs append_Cons append_Nil using utf8_decode_bytes1 [of "of_nat c" rest] a
      by (simp only: u)
  next
    case b
    then have bs: "bs = [of_nat (0xC0 + c div 64), of_nat (0x80 + c mod 64)]"
      using assms by (simp add: utf8_char_def)
    have d: "2 \<le> c div 64" "c div 64 < 32" "c mod 64 < 64" using b by simp_all
    have u0: "unat (of_nat (0xC0 + c div 64) :: byte) = 0xC0 + c div 64"
      using d by (intro unat_byte) linarith
    have u1: "unat (of_nat (0x80 + c mod 64) :: byte) = 0x80 + c mod 64"
      using d by (intro unat_byte) linarith
    show ?thesis
      unfolding bs append_Cons append_Nil
      using utf8_decode_bytes2 [OF u0 u1 d, of rest] by (simp only: split64 [symmetric])
  next
    case c
    then have ns: "\<not> (0xD800 \<le> c \<and> c \<le> 0xDFFF)"
      using assms by (auto simp: utf8_char_def split: if_splits)
    from c ns have bs: "bs = [of_nat (0xE0 + c div 4096), of_nat (0x80 + c div 64 mod 64),
        of_nat (0x80 + c mod 64)]"
      using assms by (auto simp: utf8_char_def split: if_splits)
    have d: "c div 4096 < 16" "c div 64 mod 64 < 64" "c mod 64 < 64" using c by simp_all
    have u0: "unat (of_nat (0xE0 + c div 4096) :: byte) = 0xE0 + c div 4096"
      using d by (intro unat_byte) linarith
    have u1: "unat (of_nat (0x80 + c div 64 mod 64) :: byte) = 0x80 + c div 64 mod 64"
      using d by (intro unat_byte) linarith
    have u2: "unat (of_nat (0x80 + c mod 64) :: byte) = 0x80 + c mod 64"
      using d by (intro unat_byte) linarith
    have r1: "0x800 \<le> c div 4096 * 4096 + c div 64 mod 64 * 64 + c mod 64"
      using c(1) split4096 [of c] by linarith
    have r2: "\<not> (0xD800 \<le> c div 4096 * 4096 + c div 64 mod 64 * 64 + c mod 64 \<and>
        c div 4096 * 4096 + c div 64 mod 64 * 64 + c mod 64 \<le> 0xDFFF)"
      using ns split4096 [of c] by linarith
    show ?thesis
      unfolding bs append_Cons append_Nil
      using utf8_decode_bytes3 [OF u0 u1 u2 d r1 r2, of rest]
      by (simp only: split4096 [symmetric])
  next
    case d
    then have lt: "c < 0x110000"
      using assms by (auto simp: utf8_char_def split: if_splits)
    from d lt have bs: "bs = [of_nat (0xF0 + c div 262144), of_nat (0x80 + c div 4096 mod 64),
        of_nat (0x80 + c div 64 mod 64), of_nat (0x80 + c mod 64)]"
      using assms by (auto simp: utf8_char_def split: if_splits)
    have e: "c div 262144 < 5" "c div 4096 mod 64 < 64" "c div 64 mod 64 < 64" "c mod 64 < 64"
      using lt by simp_all
    have u0: "unat (of_nat (0xF0 + c div 262144) :: byte) = 0xF0 + c div 262144"
      using e by (intro unat_byte) linarith
    have u1: "unat (of_nat (0x80 + c div 4096 mod 64) :: byte) = 0x80 + c div 4096 mod 64"
      using e by (intro unat_byte) linarith
    have u2: "unat (of_nat (0x80 + c div 64 mod 64) :: byte) = 0x80 + c div 64 mod 64"
      using e by (intro unat_byte) linarith
    have u3: "unat (of_nat (0x80 + c mod 64) :: byte) = 0x80 + c mod 64"
      using e by (intro unat_byte) linarith
    have r1: "0x10000 \<le> c div 262144 * 262144 + c div 4096 mod 64 * 4096
        + c div 64 mod 64 * 64 + c mod 64"
      using d split262144 [of c] by linarith
    have r2: "c div 262144 * 262144 + c div 4096 mod 64 * 4096
        + c div 64 mod 64 * 64 + c mod 64 < 0x110000"
      using lt split262144 [of c] by linarith
    show ?thesis
      unfolding bs append_Cons append_Nil
      using utf8_decode_bytes4 [OF u0 u1 u2 u3 e r1 r2, of rest]
      by (simp only: split262144 [symmetric])
  qed
qed

lemma utf8_decode_encode:
  "utf8_encode s = Some bs \<Longrightarrow> utf8_decode (bs @ rest) = map_option ((@) s) (utf8_decode rest)"
proof (induction s arbitrary: bs)
  case Nil
  then show ?case by (simp add: option.map_ident)
next
  case (Cons c s)
  from Cons.prems obtain b bs' where
    b: "utf8_char c = Some b" and bs': "utf8_encode s = Some bs'" and bs: "bs = b @ bs'"
    by (auto split: option.splits)
  show ?case
    unfolding bs append_assoc utf8_decode_char [OF b] Cons.IH [OF bs']
    by (simp add: option.map_comp comp_def)
qed

lemma write_chunks_all:
  "utf8_encode (concat chunks) = Some bs \<Longrightarrow> write_chunks chunks written = (written @ bs, True)"
proof (induction chunks arbitrary: written bs)
  case Nil
  then show ?case by simp
next
  case (Cons chunk chunks)
  from Cons.prems obtain x y where
    x: "utf8_encode chunk = Some x" and y: "utf8_encode (concat chunks) = Some y"
    and bs: "bs = x @ y"
    by (auto simp: utf8_encode_append split: option.splits)
  from Cons.IH [OF y, of "written @ x"] x bs show ?case by simp
qed

lemma utf8_encode_total:
  "(\<forall>c\<in>set s. utf8_char c \<noteq> None) \<Longrightarrow> \<exists>bs. utf8_encode s = Some bs"
  by (induction s) auto

lemma utf8_encode_chars:
  "utf8_encode s \<noteq> None \<Longrightarrow> c \<in> set s \<Longrightarrow> utf8_char c \<noteq> None"
  by (induction s) (auto split: option.splits)

subsection \<open>Scanning strings and numbers that the encoder wrote\<close>

lemma hex_value_hex_digit: "d < 16 \<Longrightarrow> hex_value (hex_digit d) = Some d"
  by (auto simp: hex_value_def hex_digit_def)

lemma unicode_escape_control:
  assumes "c < 32"
  shows "unicode_escape (48 # 48 # hex_digit (c div 16) # hex_digit (c mod 16) # rest)
           = Some (c, 4)"
proof -
  have h: "hex_value 48 = Some 0" by (simp add: hex_value_def)
  have a: "hex_value (hex_digit (c div 16)) = Some (c div 16)"
    using assms by (intro hex_value_hex_digit) simp
  have b: "hex_value (hex_digit (c mod 16)) = Some (c mod 16)"
    by (intro hex_value_hex_digit) simp
  have "decode_uXXXX (48 # 48 # hex_digit (c div 16) # hex_digit (c mod 16) # rest) = Some c"
    by (simp add: h a b)
  with assms show ?thesis by (simp add: unicode_escape_def)
qed

lemma scanstring_escape_char:
  "scanstring (escape_char c @ rest)
     = map_option (\<lambda>(t, r). (c # t, r)) (scanstring rest)"
proof -
  consider (bs) "c = 92" | (q) "c = 34" | (b) "c = 8" | (f) "c = 12" | (n) "c = 10"
    | (r) "c = 13" | (t) "c = 9"
    | (ctl) "c < 32" "c \<noteq> 8" "c \<noteq> 12" "c \<noteq> 10" "c \<noteq> 13" "c \<noteq> 9"
    | (plain) "32 \<le> c" "c \<noteq> 92" "c \<noteq> 34"
    by linarith
  then show ?thesis
  proof cases
    case ctl
    then have e: "escape_char c =
        [92, 117, 48, 48, hex_digit (c div 16), hex_digit (c mod 16)]"
      by (simp add: escape_char_def)
    show ?thesis
      unfolding e using unicode_escape_control [OF ctl(1)] by simp
  next
    case plain
    then show ?thesis by (simp add: escape_char_def)
  qed (simp_all add: escape_char_def backslash_def)
qed

lemma scanstring_escaped:
  "scanstring (concat (map escape_char s) @ 34 # rest) = Some (s, rest)"
  by (induction s) (simp_all add: scanstring_escape_char)

lemma encode_basestring_append:
  "encode_basestring s @ rest = 34 # concat (map escape_char s) @ 34 # rest"
  by (simp add: encode_basestring_def)

lemma scan_once_string:
  "scan_once (Suc n) (encode_basestring s @ rest) = Parsed (JStr s) rest"
  by (simp add: encode_basestring_append scanstring_escaped)


lemma digits_is_digit: "\<forall>c\<in>set (digits n). is_digit c"
proof (induction n rule: digits.induct)
  case (1 n)
  show ?case
  proof (cases "n < 10")
    case True
    then show ?thesis by (subst digits.simps) (simp add: is_digit_def)
  next
    case False
    have "n mod 10 < 10" by simp
    then have "is_digit (48 + n mod 10)" unfolding is_digit_def by linarith
    with 1 False show ?thesis by (subst digits.simps) simp
  qed
qed

lemma digits_cases:
  "(n = 0 \<and> digits n = [48]) \<or>
   (0 < n \<and> (\<exists>d ds. digits n = d # ds \<and> 49 \<le> d \<and> d \<le> 57))"
proof (induction n rule: digits.induct)
  case (1 n)
  show ?case
  proof (cases "n < 10")
    case True
    then show ?thesis by (subst (1 2) digits.simps) auto
  next
    case False
    then have "0 < n div 10" by simp
    with 1 False obtain d ds where "digits (n div 10) = d # ds" "49 \<le> d" "d \<le> 57"
      by auto
    with False show ?thesis by (subst (2) digits.simps) auto
  qed
qed

lemma decimal_value_snoc: "decimal_value (ds @ [d]) = 10 * decimal_value ds + (d - 48)"
  by (simp add: decimal_value_def)

lemma decimal_value_digits: "decimal_value (digits n) = n"
proof (induction n rule: digits.induct)
  case (1 n)
  show ?case
  proof (cases "n < 10")
    case True
    then show ?thesis by (subst digits.simps) (simp add: decimal_value_def)
  next
    case False
    with 1 show ?thesis by (subst digits.simps) (simp add: decimal_value_snoc)
  qed
qed

lemma takeWhile_digits:
  "\<not> is_digit c \<Longrightarrow> takeWhile is_digit (digits n @ c # rest) = digits n"
  using digits_is_digit [of n] by (simp add: takeWhile_append)

lemma dropWhile_digits:
  "\<not> is_digit c \<Longrightarrow> dropWhile is_digit (digits n @ c # rest) = c # rest"
  using digits_is_digit [of n] by (simp add: dropWhile_append)

lemma match_integer_digits:
  assumes "\<not> is_digit c"
  shows "match_integer (digits n @ c # rest) = Some (digits n, c # rest)"
proof -
  from digits_cases [of n] show ?thesis
  proof (elim disjE conjE exE)
    assume "n = 0" "digits n = [48]"
    then show ?thesis by (simp add: match_integer_def)
  next
    fix d ds
    assume d: "digits n = d # ds" "49 \<le> d" "d \<le> 57"
    have "is_digit d" using d by (simp add: is_digit_def)
    with takeWhile_digits [OF assms, of n rest] dropWhile_digits [OF assms, of n rest] d
    show ?thesis by (simp add: match_integer_def)
  qed
qed

lemma digits_head: "\<exists>d ds. digits n = d # ds \<and> 48 \<le> d \<and> d \<le> 57"
  using digits_cases [of n] by auto

lemma match_number_intstr:
  "match_number (intstr i @ 44 # rest) = Some (JInt i, 44 # rest)"
proof -
  have nd: "\<not> is_digit 44" by (simp add: is_digit_def)
  have fr: "match_frac (44 # rest) = ([], 44 # rest)"
    by (cases rest) (simp_all add: match_frac_def)
  have ex: "match_exp (44 # rest) = ([], 44 # rest)"
    by (simp add: match_exp_def)
  show ?thesis
  proof (cases "i < 0")
    case True
    then show ?thesis
      by (simp add: match_number_def intstr_def match_integer_digits [OF nd] fr ex
          decimal_value_digits)
  next
    case False
    define s where "s = digits (nat i) @ 44 # rest"
    from digits_head [of "nat i"] obtain d ds where
      d: "digits (nat i) = d # ds" "48 \<le> d"
      by auto
    then have sign: "(case s of [] \<Rightarrow> ([], s) | c # r \<Rightarrow> if c = 45 then ([c], r) else ([], s))
        = ([], s)"
      by (simp add: s_def)
    have mi: "match_integer s = Some (digits (nat i), 44 # rest)"
      unfolding s_def by (rule match_integer_digits [OF nd])
    have "match_number s = Some (JInt i, 44 # rest)"
      unfolding match_number_def sign using False
      by (simp add: mi fr ex decimal_value_digits)
    with False show ?thesis by (simp add: intstr_def s_def)
  qed
qed

lemma intstr_head:
  "\<exists>c cs. intstr i = c # cs \<and> (c = 45 \<or> (48 \<le> c \<and> c \<le> 57)) \<and>
      (c = 45 \<longrightarrow> (\<exists>d ds. cs = d # ds \<and> 48 \<le> d \<and> d \<le> 57))"
proof (cases "i < 0")
  case True
  from digits_head [of "nat (- i)"] obtain d ds where
    "digits (nat (- i)) = d # ds" "48 \<le> d" "d \<le> 57"
    by blast
  with True show ?thesis by (simp add: intstr_def)
next
  case False
  from digits_head [of "nat i"] obtain d ds where
    "digits (nat i) = d # ds" "48 \<le> d" "d \<le> 57"
    by blast
  with False show ?thesis by (simp add: intstr_def)
qed

lemma scan_once_int:
  "scan_once (Suc n) (intstr i @ 44 # rest) = Parsed (JInt i) (44 # rest)"
proof -
  from intstr_head [of i] obtain c cs where
    c: "intstr i = c # cs" "c = 45 \<or> (48 \<le> c \<and> c \<le> 57)"
    "c = 45 \<longrightarrow> (\<exists>d ds. cs = d # ds \<and> 48 \<le> d \<and> d \<le> 57)"
    by blast
  have m: "match_number (c # cs @ 44 # rest) = Some (JInt i, 44 # rest)"
    using match_number_intstr [of i rest] c(1) by simp
  from c(2,3) have "\<not> starts_with (lit ''-Infinity'') (c # cs @ 44 # rest)"
    by (auto simp: starts_with_def lit_def)
  with c(2) m show ?thesis
    unfolding c(1) by (auto simp: starts_with_def lit_def)
qed

lemma scan_once_true:
  "scan_once (Suc n) (lit ''true'' @ rest) = Parsed (JBool True) rest"
  by (simp add: starts_with_def lit_def)

lemma scan_once_false:
  "scan_once (Suc n) (lit ''false'' @ rest) = Parsed (JBool False) rest"
  by (simp add: starts_with_def lit_def)


lemma universal_newlines_id: "13 \<notin> set s \<Longrightarrow> universal_newlines s = s"
  by (induction s rule: universal_newlines.induct) auto

lemma strip_id:
  assumes "s \<noteq> []" "\<not> py_isspace (hd s)" "\<not> py_isspace (last s)"
  shows "strip s = s"
proof -
  from assms(1,2) have a: "dropWhile py_isspace s = s"
    by (cases s) simp_all
  from assms(1,3) have "dropWhile py_isspace (rev s) = rev s"
    by (cases "rev s") (simp_all add: last_rev [symmetric] hd_rev)
  with a show ?thesis by (simp add: strip_def)
qed

lemma skip_ws_space [simp]: "skip_ws (32 # s) = skip_ws s"
  and skip_ws_newline [simp]: "skip_ws (10 # s) = skip_ws s"
  by (simp_all add: skip_ws_def is_ws_def)

lemma skip_ws_other: "\<not> is_ws c \<Longrightarrow> skip_ws (c # s) = c # s"
  by (simp add: skip_ws_def)

subsection \<open>Scanning the dict of a task\<close>

lemma skip_ws_string [simp]: "skip_ws (encode_basestring s @ r) = encode_basestring s @ r"
  by (simp add: encode_basestring_def skip_ws_other is_ws_def)

lemma skip_ws_intstr [simp]: "skip_ws (intstr i @ r) = intstr i @ r"
proof -
  from intstr_head [of i] obtain c cs where
    "intstr i = c # cs" "c = 45 \<or> (48 \<le> c \<and> c \<le> 57)"
    by blast
  then show ?thesis by (auto simp: skip_ws_other is_ws_def)
qed

lemma skip_ws_newline_indent [simp]: "skip_ws (newline_indent k @ r) = skip_ws r"
proof -
  have "skip_ws (replicate m 32 @ r) = skip_ws r" for m
    by (induction m) simp_all
  then show ?thesis by (simp add: newline_indent_def)
qed

lemma skip_ws_item_separator [simp]:
  "skip_ws (item_separator k @ r) = 44 # newline_indent k @ r"
  by (simp add: item_separator_def skip_ws_other is_ws_def)

lemma object_pairs_more:
  assumes "scan_once n vtext = Parsed v (44 # newline_indent 2 @ encode_basestring k @ nxt)"
    and "skip_ws vtext = vtext"
    and "object_pairs n (encode_basestring k @ nxt) = Parsed pairs rest"
  shows "object_pairs (Suc n) (encode_basestring key @ 58 # 32 # vtext)
           = Parsed ((key, v) # pairs) rest"
proof -
  have a: "encode_basestring key @ 58 # 32 # vtext
      = 34 # concat (map escape_char key) @ 34 # 58 # 32 # vtext"
    by (simp add: encode_basestring_def)
  show ?thesis
    unfolding a using assms
    by (simp add: scanstring_escaped skip_ws_other is_ws_def)
qed

lemma object_pairs_last:
  assumes "scan_once n vtext = Parsed v (newline_indent 1 @ 125 # rest)"
    and "skip_ws vtext = vtext"
  shows "object_pairs (Suc n) (encode_basestring key @ 58 # 32 # vtext)
           = Parsed [(key, v)] rest"
proof -
  have a: "encode_basestring key @ 58 # 32 # vtext
      = 34 # concat (map escape_char key) @ 34 # 58 # 32 # vtext"
    by (simp add: encode_basestring_def)
  show ?thesis
    unfolding a using assms
    by (simp add: scanstring_escaped skip_ws_other is_ws_def)
qed

lemma scan_once_object:
  assumes "skip_ws r = encode_basestring k @ nxt"
    and "object_pairs n (encode_basestring k @ nxt) = Parsed pairs rest"
  shows "scan_once (Suc n) (123 # r) = Parsed (JObj (py_dict pairs)) rest"
  using assms by (simp add: encode_basestring_append)

lemma array_values_more:
  assumes "scan_once n s = Parsed v (44 # newline_indent 1 @ nxt)"
    and "skip_ws nxt = nxt"
    and "array_values n nxt = Parsed vs rest"
  shows "array_values (Suc n) s = Parsed (v # vs) rest"
  using assms by (simp add: skip_ws_other is_ws_def)

lemma array_values_last:
  assumes "scan_once n s = Parsed v (newline_indent 0 @ 93 # rest)"
  shows "array_values (Suc n) s = Parsed [v] rest"
  using assms by (simp add: skip_ws_other is_ws_def)

lemma scan_once_array:
  assumes "skip_ws r = 123 # nxt"
    and "array_values n (123 # nxt) = Parsed vs rest"
  shows "scan_once (Suc n) (91 # r) = Parsed (JArr vs) rest"
  using assms by simp

lemma lit_punct:
  "lit ''{'' = [123]" "lit ''}'' = [125]" "lit '': '' = [58, 32]" "lit '']'' = [93]"
  "lit ''[]'' = [91, 93]" "lit ''['' = [91]"
  by (simp_all add: lit_def)

lemma skip_ws_bool [simp]:
  "skip_ws ((if b then lit ''true'' else lit ''false'') @ r)
     = (if b then lit ''true'' else lit ''false'') @ r"
  by (simp add: lit_def skip_ws_other is_ws_def)

lemma scan_once_bool:
  "scan_once (Suc n) ((if b then lit ''true'' else lit ''false'') @ rest)
     = Parsed (JBool b) rest"
  by (simp add: scan_once_true scan_once_false del: scan_once.simps)

lemma dict_text:
  "concat (iterencode_dict t) @ rest =
     123 # newline_indent 2 @
     encode_basestring (lit ''id'') @ 58 # 32 # intstr (id' t) @
     44 # newline_indent 2 @
     encode_basestring (lit ''description'') @ 58 # 32 # encode_basestring (description t) @
     44 # newline_indent 2 @
     encode_basestring (lit ''completed'') @ 58 # 32 #
       (if completed t then lit ''true'' else lit ''false'') @
     44 # newline_indent 2 @
     encode_basestring (lit ''created_at'') @ 58 # 32 # encode_basestring (created_at t) @
     (case completed_at t of
        None \<Rightarrow> newline_indent 1 @ 125 # rest
      | Some c \<Rightarrow>
          44 # newline_indent 2 @
          encode_basestring (lit ''completed_at'') @ 58 # 32 # encode_basestring c @
          newline_indent 1 @ 125 # rest)"
  by (simp add: iterencode_dict_def lit_punct item_separator_def split: option.splits)

lemma object_pairs_task:
  "object_pairs (Suc (Suc (Suc (Suc (Suc (Suc n))))))
     (encode_basestring (lit ''id'') @ 58 # 32 # intstr (id' t) @
      44 # newline_indent 2 @
      encode_basestring (lit ''description'') @ 58 # 32 # encode_basestring (description t) @
      44 # newline_indent 2 @
      encode_basestring (lit ''completed'') @ 58 # 32 #
        (if completed t then lit ''true'' else lit ''false'') @
      44 # newline_indent 2 @
      encode_basestring (lit ''created_at'') @ 58 # 32 # encode_basestring (created_at t) @
      (case completed_at t of
         None \<Rightarrow> newline_indent 1 @ 125 # rest
       | Some c \<Rightarrow>
           44 # newline_indent 2 @
           encode_basestring (lit ''completed_at'') @ 58 # 32 # encode_basestring c @
           newline_indent 1 @ 125 # rest))
   = Parsed (task_items t) rest"
proof -
  define tail where "tail =
      (case completed_at t of
         None \<Rightarrow> newline_indent 1 @ 125 # rest
       | Some c \<Rightarrow>
           44 # newline_indent 2 @
           encode_basestring (lit ''completed_at'') @ 58 # 32 # encode_basestring c @
           newline_indent 1 @ 125 # rest)"
  define last_items where "last_items =
      (case completed_at t of None \<Rightarrow> [] | Some c \<Rightarrow> [(lit ''completed_at'', JStr c)])"
  have p4: "object_pairs (Suc (Suc (Suc n)))
      (encode_basestring (lit ''created_at'') @ 58 # 32 # encode_basestring (created_at t) @ tail)
      = Parsed ((lit ''created_at'', JStr (created_at t)) # last_items) rest"
  proof (cases "completed_at t")
    case None
    then show ?thesis
      unfolding tail_def last_items_def
      by (simp only: option.case) (rule object_pairs_last [OF scan_once_string skip_ws_string])
  next
    case (Some c)
    have p5: "object_pairs (Suc (Suc n))
        (encode_basestring (lit ''completed_at'') @ 58 # 32 # encode_basestring c @
         newline_indent 1 @ 125 # rest) = Parsed [(lit ''completed_at'', JStr c)] rest"
      by (rule object_pairs_last [OF scan_once_string skip_ws_string])
    from Some show ?thesis
      unfolding tail_def last_items_def
      by (simp only: option.case)
         (rule object_pairs_more [OF scan_once_string skip_ws_string p5])
  qed
  have p3: "object_pairs (Suc (Suc (Suc (Suc n))))
      (encode_basestring (lit ''completed'') @ 58 # 32 #
        (if completed t then lit ''true'' else lit ''false'') @
       44 # newline_indent 2 @
       encode_basestring (lit ''created_at'') @ 58 # 32 # encode_basestring (created_at t) @ tail)
      = Parsed ((lit ''completed'', JBool (completed t)) #
                (lit ''created_at'', JStr (created_at t)) # last_items) rest"
    by (rule object_pairs_more [OF scan_once_bool skip_ws_bool p4])
  have p2: "object_pairs (Suc (Suc (Suc (Suc (Suc n)))))
      (encode_basestring (lit ''description'') @ 58 # 32 # encode_basestring (description t) @
       44 # newline_indent 2 @
       encode_basestring (lit ''completed'') @ 58 # 32 #
        (if completed t then lit ''true'' else lit ''false'') @
       44 # newline_indent 2 @
       encode_basestring (lit ''created_at'') @ 58 # 32 # encode_basestring (created_at t) @ tail)
      = Parsed ((lit ''description'', JStr (description t)) #
                (lit ''completed'', JBool (completed t)) #
                (lit ''created_at'', JStr (created_at t)) # last_items) rest"
    by (rule object_pairs_more [OF scan_once_string skip_ws_string p3])
  have p1: "object_pairs (Suc (Suc (Suc (Suc (Suc (Suc n))))))
      (encode_basestring (lit ''id'') @ 58 # 32 # intstr (id' t) @
       44 # newline_indent 2 @
       encode_basestring (lit ''description'') @ 58 # 32 # encode_basestring (description t) @
       44 # newline_indent 2 @
       encode_basestring (lit ''completed'') @ 58 # 32 #
        (if completed t then lit ''true'' else lit ''false'') @
       44 # newline_indent 2 @
       encode_basestring (lit ''created_at'') @ 58 # 32 # encode_basestring (created_at t) @ tail)
      = Parsed ((lit ''id'', JInt (id' t)) #
                (lit ''description'', JStr (description t)) #
                (lit ''completed'', JBool (completed t)) #
                (lit ''created_at'', JStr (created_at t)) # last_items) rest"
    by (rule object_pairs_more [OF scan_once_int skip_ws_intstr p2])
  show ?thesis
    using p1 unfolding tail_def last_items_def task_items_def by simp
qed

lemma py_dict_task_items: "py_dict (task_items t) = task_items t"
  by (simp add: py_dict_def task_items_def lit_def split: option.splits)

lemma skip_ws_indent_string:
  "skip_ws (newline_indent k @ encode_basestring s @ r) = encode_basestring s @ r"
  by simp

lemma scan_once_task:
  "scan_once (Suc (Suc (Suc (Suc (Suc (Suc (Suc n))))))) (concat (iterencode_dict t) @ rest)
     = Parsed (JObj (task_items t)) rest"
  unfolding dict_text
  using scan_once_object [OF skip_ws_indent_string object_pairs_task [of n t rest]]
  by (simp only: py_dict_task_items)

lemma task_of_json_items: "task_of_json (JObj (task_items t)) = Some t"
  by (simp add: task_of_json_def task_items_def lit_def split: option.splits)

lemma tasks_of_values_items: "tasks_of_values (map (\<lambda>t. JObj (task_items t)) ts) = Some ts"
  by (induction ts) (simp_all add: task_of_json_items)

subsection \<open>Scanning the list of tasks\<close>

lemma dict_text_head: "\<exists>body. concat (iterencode_dict t) @ rest = 123 # body"
  unfolding dict_text by blast

lemma rest_text_Cons:
  "concat (iterencode_rest (t # ts)) =
     44 # newline_indent 1 @ concat (iterencode_dict t) @ concat (iterencode_rest ts)"
  by (simp add: item_separator_def)

lemma skip_ws_dict [simp]:
  "skip_ws (concat (iterencode_dict t) @ rest) = concat (iterencode_dict t) @ rest"
proof -
  from dict_text_head [of t rest] obtain body where
    "concat (iterencode_dict t) @ rest = 123 # body" by blast
  then show ?thesis by (simp add: skip_ws_other is_ws_def)
qed

lemma array_values_tasks:
  "array_values (Suc (length ts + 7 + k))
     (concat (iterencode_dict t) @ concat (iterencode_rest ts))
   = Parsed (map (\<lambda>t. JObj (task_items t)) (t # ts)) []"
proof (induction ts arbitrary: t)
  case Nil
  have f: "length ([]::task list) + 7 + k = Suc (Suc (Suc (Suc (Suc (Suc (Suc k))))))"
    by simp
  have "scan_once (length ([]::task list) + 7 + k)
      (concat (iterencode_dict t) @ newline_indent 0 @ 93 # [])
      = Parsed (JObj (task_items t)) (newline_indent 0 @ 93 # [])"
    unfolding f by (rule scan_once_task)
  from array_values_last [OF this] show ?case by (simp add: lit_punct)
next
  case (Cons t' ts)
  have f: "length (t' # ts) + 7 + k = Suc (Suc (Suc (Suc (Suc (Suc (Suc (Suc (length ts + k))))))))"
    by simp
  have a: "scan_once (length (t' # ts) + 7 + k)
      (concat (iterencode_dict t) @ 44 # newline_indent 1 @
         concat (iterencode_dict t') @ concat (iterencode_rest ts))
      = Parsed (JObj (task_items t)) (44 # newline_indent 1 @
         concat (iterencode_dict t') @ concat (iterencode_rest ts))"
    unfolding f by (rule scan_once_task)
  have e: "length (t' # ts) + 7 + k = Suc (length ts + 7 + k)"
    by simp
  have b: "array_values (length (t' # ts) + 7 + k)
      (concat (iterencode_dict t') @ concat (iterencode_rest ts))
      = Parsed (map (\<lambda>t. JObj (task_items t)) (t' # ts)) []"
    unfolding e by (rule Cons.IH)
  from array_values_more [OF a skip_ws_dict b] show ?case
    by (simp only: rest_text_Cons list.map)
qed

lemma length_rest_text: "length ts + 2 \<le> length (concat (iterencode_rest ts))"
  by (induction ts) (simp_all add: newline_indent_def lit_punct item_separator_def)

lemma list_text_Cons:
  "concat (iterencode_list (t # ts)) =
     91 # newline_indent 1 @ concat (iterencode_dict t) @ concat (iterencode_rest ts)"
  by (simp add: lit_punct)

lemma json_loads_scanned:
  assumes "\<not> starts_with [0xFEFF] doc"
    and "scan_once (Suc (2 * length doc)) (skip_ws doc) = Parsed v []"
  shows "json_loads doc = Parsed v []"
  using assms by (simp add: json_loads_def skip_ws_def del: scan_once.simps)

lemma scan_once_empty_array:
  "scan_once (Suc n) (skip_ws [91, 93]) = Parsed (JArr []) []"
  by (simp add: skip_ws_other is_ws_def)

lemma json_loads_tasks:
  "json_loads (concat (iterencode_list ts)) = Parsed (JArr (map (\<lambda>t. JObj (task_items t)) ts)) []"
proof (cases ts)
  case Nil
  have t: "concat (iterencode_list []) = [91, 93]"
    by (simp add: lit_punct)
  have "json_loads [91, 93] = Parsed (JArr []) []"
    by (rule json_loads_scanned [OF _ scan_once_empty_array]) (simp add: starts_with_def)
  then show ?thesis unfolding Nil t by simp
next
  case (Cons t ts')
  define doc where "doc = concat (iterencode_list ts)"
  define r where "r = newline_indent 1 @ concat (iterencode_dict t) @ concat (iterencode_rest ts')"
  have doc: "doc = 91 # r"
    by (simp add: doc_def r_def Cons lit_punct)
  from dict_text_head [of t "concat (iterencode_rest ts')"] obtain body where
    body: "concat (iterencode_dict t) @ concat (iterencode_rest ts') = 123 # body"
    by blast
  have sk: "skip_ws r = 123 # body"
    unfolding r_def using skip_ws_dict [of t "concat (iterencode_rest ts')"] body by simp
  have "length ts' + 4 \<le> length doc"
    using length_rest_text [of ts'] by (simp add: doc r_def newline_indent_def)
  then have "length ts' + 8 \<le> 2 * length doc"
    by simp
  then obtain k where "2 * length doc = length ts' + 8 + k"
    using le_Suc_ex by blast
  then have k: "2 * length doc = Suc (length ts' + 7 + k)"
    by simp
  have av: "array_values (2 * length doc) (123 # body)
      = Parsed (map (\<lambda>t. JObj (task_items t)) ts) []"
    unfolding k body [symmetric] Cons by (rule array_values_tasks)
  have so: "scan_once (Suc (2 * length doc)) (91 # r)
      = Parsed (JArr (map (\<lambda>t. JObj (task_items t)) ts)) []"
    by (rule scan_once_array [OF sk av])
  have "skip_ws doc = doc" and nb: "\<not> starts_with [0xFEFF] doc"
    by (simp_all add: doc skip_ws_other is_ws_def starts_with_def)
  with so have "scan_once (Suc (2 * length doc)) (skip_ws doc)
      = Parsed (JArr (map (\<lambda>t. JObj (task_items t)) ts)) []"
    by (simp only: doc)
  from json_loads_scanned [OF nb this] show ?thesis
    by (simp only: doc_def)
qed

subsection \<open>The characters of the written text\<close>

lemma utf8_char_ascii: "c < 128 \<Longrightarrow> c \<in> dom utf8_char"
  by (simp add: utf8_char_def domIff)

lemma escape_char_clean:
  assumes "utf8_char c \<noteq> None"
  shows "list_all (\<lambda>x. x \<noteq> 13 \<and> x \<in> dom utf8_char) (escape_char c)"
proof -
  have h: "hex_digit d < 128 \<and> hex_digit d \<noteq> 13" if "d < 16" for d
    using that by (simp add: hex_digit_def)
  have "hex_digit (c div 16) < 128 \<and> hex_digit (c div 16) \<noteq> 13" if "c < 32"
    using that by (intro h) simp
  moreover have "hex_digit (c mod 16) < 128 \<and> hex_digit (c mod 16) \<noteq> 13"
    by (intro h) simp
  moreover have "c \<in> dom utf8_char"
    using assms by (simp add: domIff)
  ultimately show ?thesis
    by (simp add: escape_char_def utf8_char_ascii)
qed

lemma encode_basestring_clean:
  assumes "utf8_encode s \<noteq> None"
  shows "list_all (\<lambda>x. x \<noteq> 13 \<and> x \<in> dom utf8_char) (encode_basestring s)"
proof -
  have "list_all (\<lambda>x. x \<noteq> 13 \<and> x \<in> dom utf8_char) (concat (map escape_char s))"
    using assms
  proof (induction s)
    case Nil
    then show ?case by simp
  next
    case (Cons c s)
    then have "utf8_char c \<noteq> None" "utf8_encode s \<noteq> None"
      by (auto split: option.splits)
    with Cons.IH escape_char_clean [of c] show ?case by simp
  qed
  then show ?thesis by (simp add: encode_basestring_def utf8_char_ascii)
qed

lemma utf8_encode_lit_keys:
  "utf8_encode (lit ''id'') \<noteq> None" "utf8_encode (lit ''description'') \<noteq> None"
  "utf8_encode (lit ''completed'') \<noteq> None" "utf8_encode (lit ''created_at'') \<noteq> None"
  "utf8_encode (lit ''completed_at'') \<noteq> None"
  by (simp_all add: lit_def utf8_char_def)

lemma digits_clean: "list_all (\<lambda>x. x \<noteq> 13 \<and> x \<in> dom utf8_char) (digits n)"
proof -
  have "x \<noteq> 13 \<and> x \<in> dom utf8_char" if "is_digit x" for x
    using that by (simp add: is_digit_def utf8_char_ascii)
  with digits_is_digit [of n] show ?thesis by (simp add: list_all_iff)
qed

lemma intstr_clean: "list_all (\<lambda>x. x \<noteq> 13 \<and> x \<in> dom utf8_char) (intstr i)"
  by (simp add: intstr_def digits_clean utf8_char_ascii)

lemma newline_indent_clean:
  "list_all (\<lambda>x. x \<noteq> 13 \<and> x \<in> dom utf8_char) (newline_indent k)"
  by (simp add: newline_indent_def utf8_char_ascii list_all_iff)

lemma bool_clean:
  "list_all (\<lambda>x. x \<noteq> 13 \<and> x \<in> dom utf8_char) (if b then lit ''true'' else lit ''false'')"
  by (simp add: lit_def utf8_char_ascii)

lemma dict_clean:
  assumes "utf8_encode (description t) \<noteq> None" "utf8_encode (created_at t) \<noteq> None"
    "\<forall>c. completed_at t = Some c \<longrightarrow> utf8_encode c \<noteq> None"
  shows "list_all (\<lambda>x. x \<noteq> 13 \<and> x \<in> dom utf8_char) (concat (iterencode_dict t))"
proof -
  have "list_all (\<lambda>x. x \<noteq> 13 \<and> x \<in> dom utf8_char) (concat (iterencode_dict t) @ [])"
    unfolding dict_text using assms
    by (simp add: encode_basestring_clean utf8_encode_lit_keys intstr_clean
        newline_indent_clean bool_clean utf8_char_ascii split: option.splits)
  then show ?thesis by simp
qed

lemma rest_clean:
  assumes "\<forall>t\<in>set ts. utf8_encode (description t) \<noteq> None \<and>
      utf8_encode (created_at t) \<noteq> None \<and>
      (\<forall>c. completed_at t = Some c \<longrightarrow> utf8_encode c \<noteq> None)"
  shows "list_all (\<lambda>x. x \<noteq> 13 \<and> x \<in> dom utf8_char) (concat (iterencode_rest ts))"
  using assms
proof (induction ts)
  case Nil
  then show ?case by (simp add: newline_indent_clean lit_punct utf8_char_ascii)
next
  case (Cons t ts)
  then show ?case
    by (simp only: rest_text_Cons)
       (simp add: newline_indent_clean dict_clean utf8_char_ascii)
qed

lemma list_clean:
  assumes "\<forall>t\<in>set ts. utf8_encode (description t) \<noteq> None \<and>
      utf8_encode (created_at t) \<noteq> None \<and>
      (\<forall>c. completed_at t = Some c \<longrightarrow> utf8_encode c \<noteq> None)"
  shows "list_all (\<lambda>x. x \<noteq> 13 \<and> x \<in> dom utf8_char) (concat (iterencode_list ts))"
proof (cases ts)
  case Nil
  then show ?thesis by (simp add: lit_punct utf8_char_ascii)
next
  case (Cons t ts')
  with assms rest_clean [of ts'] show ?thesis
    by (simp only: list_text_Cons)
       (simp add: newline_indent_clean dict_clean utf8_char_ascii)
qed

lemma last_rest_text:
  "concat (iterencode_rest ts) \<noteq> [] \<and> last (concat (iterencode_rest ts)) = 93"
  by (induction ts) (simp_all add: lit_punct item_separator_def)

lemma list_text_ends:
  "concat (iterencode_list ts) \<noteq> [] \<and> hd (concat (iterencode_list ts)) = 91 \<and>
   last (concat (iterencode_list ts)) = 93"
proof (cases ts)
  case Nil
  then show ?thesis by (simp add: lit_punct)
next
  case (Cons t ts')
  with last_rest_text [of ts'] show ?thesis
    by (simp only: list_text_Cons) simp
qed

subsection \<open>A write that stops at a chunk\<close>

lemma write_chunks_stop:
  assumes "utf8_encode (concat pre) = Some bs" and "utf8_encode bad = None"
  shows "write_chunks (pre @ bad # post) written = (written @ bs, False)"
  using assms
proof (induction pre arbitrary: written bs)
  case Nil
  then show ?case by simp
next
  case (Cons chunk pre)
  from Cons.prems(1) obtain x y where
    x: "utf8_encode chunk = Some x" and y: "utf8_encode (concat pre) = Some y"
    and bs: "bs = x @ y"
    by (auto simp: utf8_encode_append split: option.splits)
  from Cons.IH [OF y Cons.prems(2), of "written @ x"] x bs show ?case by simp
qed

lemma json_loads_cut_short:
  "json_loads [91, 10, 32, 32, 123, 10, 32, 32, 32, 32, 34, 105, 100, 34, 58, 32, 49, 44,
     10, 32, 32, 32, 32, 34, 100, 101, 115, 99, 114, 105, 112, 116, 105, 111, 110, 34, 58]
   = DecodeError"
  by code_simp

subsection \<open>The round trip\<close>

text \<open>
  Claim C3, as the code has it. For every list of tasks whose texts (description,
  \<open>created_at\<close> and, where present, \<open>completed_at\<close>) can be encoded in UTF-8, that is,
  contain no surrogate code point, \<open>save_tasks\<close> followed by \<open>load_tasks\<close> on the file
  it wrote gives the same tasks in the same order with the same id, description,
  completed flag, \<open>created_at\<close> and \<open>completed_at\<close>.
\<close>

theorem save_load_roundtrip:
  assumes "\<forall>t\<in>set ts. utf8_encode (description t) \<noteq> None \<and>
      utf8_encode (created_at t) \<noteq> None \<and>
      (\<forall>c. completed_at t = Some c \<longrightarrow> utf8_encode c \<noteq> None)"
  shows "load_tasks (tasks_file (save_tasks \<lparr>tasks = ts, tasks_file = f\<rparr>)) = Loaded ts"
proof -
  define doc where "doc = concat (iterencode_list ts)"
  have clean: "list_all (\<lambda>x. x \<noteq> 13 \<and> x \<in> dom utf8_char) doc"
    unfolding doc_def by (rule list_clean [OF assms])
  then have "\<forall>c\<in>set doc. utf8_char c \<noteq> None"
    by (simp add: list_all_iff domIff)
  then obtain bs where bs: "utf8_encode doc = Some bs"
    using utf8_encode_total by blast
  have written: "write_chunks (iterencode_list ts) [] = (bs, True)"
    using write_chunks_all [OF bs [unfolded doc_def], of "[]"] by simp
  have stored: "tasks_file (save_tasks \<lparr>tasks = ts, tasks_file = f\<rparr>) = Some bs"
    by (simp add: save_tasks_def written)
  have dec: "utf8_decode bs = Some doc"
    using utf8_decode_encode [OF bs, of "[]"] by simp
  have "13 \<notin> set doc"
    using clean by (auto simp: list_all_iff)
  then have nl: "universal_newlines doc = doc"
    by (rule universal_newlines_id)
  from list_text_ends [of ts]
  have ends: "doc \<noteq> []" "hd doc = 91" "last doc = 93"
    by (simp_all add: doc_def)
  then have st: "strip doc = doc"
    by (intro strip_id) (simp_all add: py_isspace_def)
  have js: "json_loads doc = Parsed (JArr (map (\<lambda>t. JObj (task_items t)) ts)) []"
    unfolding doc_def by (rule json_loads_tasks)
  show ?thesis
    unfolding stored
    by (simp add: load_tasks_def dec nl st ends(1) js tasks_of_values_items Let_def)
qed

theorem save_load_roundtrip_witness:
  "(let ts = [\<lparr>id' = 1, description = [98, 117, 121, 32, 34, 108, 97, 105, 116, 34, 10, 233, 128512],
                 completed = True, created_at = lit ''2024-01-01 10:00:00'',
                 completed_at = Some (lit ''2024-01-02 08:30:00'')\<rparr>,
               \<lparr>id' = - 7, description = lit ''pay bills'', completed = False,
                 created_at = lit ''2024-01-01 10:00:01'', completed_at = None\<rparr>]
    in (\<forall>t\<in>set ts. utf8_encode (description t) \<noteq> None \<and>
          utf8_encode (created_at t) \<noteq> None \<and>
          (\<forall>c. completed_at t = Some c \<longrightarrow> utf8_encode c \<noteq> None)) \<and>
       load_tasks (tasks_file (save_tasks \<lparr>tasks = ts, tasks_file = None\<rparr>)) = Loaded ts)"
proof -
  define ts where "ts =
     [\<lparr>id' = 1, description = [98, 117, 121, 32, 34, 108, 97, 105, 116, 34, 10, 233, 128512],
        completed = True, created_at = lit ''2024-01-01 10:00:00'',
        completed_at = Some (lit ''2024-01-02 08:30:00'')\<rparr>,
      \<lparr>id' = - 7, description = lit ''pay bills'', completed = False,
        created_at = lit ''2024-01-01 10:00:01'', completed_at = None\<rparr>]"
  have h: "\<forall>t\<in>set ts. utf8_encode (description t) \<noteq> None \<and>
      utf8_encode (created_at t) \<noteq> None \<and>
      (\<forall>c. completed_at t = Some c \<longrightarrow> utf8_encode c \<noteq> None)"
    by (simp add: ts_def lit_def utf8_char_def)
  from save_load_roundtrip [OF h, of None] h show ?thesis
    unfolding Let_def ts_def [symmetric] by blast
qed

text \<open>
  Claim C3 as stated, for every list of tasks, fails. A description may hold a
  surrogate code point (a file may carry the escape \<open>\<^verbatim>\<open>\ud800\<close>\<close>, which \<open>json.loads\<close> accepts).
  Writing it raises \<open>UnicodeEncodeError\<close>, which \<open>save_tasks\<close> catches and reports; the
  file keeps the chunks written before, which is not a JSON document, and
  \<open>load_tasks\<close> starts from the empty list.
\<close>

theorem save_load_surrogate_counterexample:
  "load_tasks (tasks_file (save_tasks
      \<lparr>tasks = [\<lparr>id' = 1, description = [0xD800], completed = False,
                  created_at = lit ''2024-01-01 10:00:00'', completed_at = None\<rparr>],
       tasks_file = None\<rparr>))
   \<noteq> Loaded [\<lparr>id' = 1, description = [0xD800], completed = False,
               created_at = lit ''2024-01-01 10:00:00'', completed_at = None\<rparr>]"
proof -
  define t where "t = \<lparr>id' = 1, description = [0xD800], completed = False,
      created_at = lit ''2024-01-01 10:00:00'', completed_at = None\<rparr>"
  define pre where "pre = [lit ''['' @ newline_indent 1, lit ''{'', newline_indent 2,
      encode_basestring (lit ''id''), lit '': '', intstr 1, item_separator 2,
      encode_basestring (lit ''description''), lit '': '']"
  define post where "post = [item_separator 2,
      encode_basestring (lit ''completed''), lit '': '', lit ''false'', item_separator 2,
      encode_basestring (lit ''created_at''), lit '': '',
      encode_basestring (lit ''2024-01-01 10:00:00''),
      newline_indent 1, lit ''}'', newline_indent 0, lit '']'']"
  define doc :: pystr where "doc =
    [91, 10, 32, 32, 123, 10, 32, 32, 32, 32, 34, 105, 100, 34, 58, 32, 49, 44,
     10, 32, 32, 32, 32, 34, 100, 101, 115, 99, 114, 105, 112, 116, 105, 111, 110, 34, 58, 32]"
  have chunks: "iterencode_list [t] = pre @ encode_basestring [0xD800] # post"
    by (simp add: t_def pre_def post_def iterencode_dict_def)
  have bad: "utf8_encode (encode_basestring [0xD800]) = None"
    by (simp add: encode_basestring_def escape_char_def utf8_char_def)
  have "digits 1 = [49]"
    by (subst digits.simps) simp
  then have doc: "concat pre = doc"
    by (simp add: pre_def doc_def lit_def newline_indent_def item_separator_def
        encode_basestring_def escape_char_def intstr_def numeral_eq_Suc)
  have "\<forall>c\<in>set doc. utf8_char c \<noteq> None"
    by (simp add: doc_def utf8_char_def)
  then obtain bs where bs: "utf8_encode doc = Some bs"
    using utf8_encode_total by blast
  have "write_chunks (iterencode_list [t]) [] = (bs, False)"
    unfolding chunks using write_chunks_stop [OF bs [folded doc] bad, of post "[]"] by simp
  then have stored: "tasks_file (save_tasks \<lparr>tasks = [t], tasks_file = None\<rparr>) = Some bs"
    by (simp add: save_tasks_def)
  have dec: "utf8_decode bs = Some doc"
    using utf8_decode_encode [OF bs, of "[]"] by simp
  have nl: "universal_newlines doc = doc"
    by (rule universal_newlines_id) (simp add: doc_def)
  have st: "strip doc = butlast doc"
    by (simp add: strip_def doc_def py_isspace_def)
  have js: "json_loads (butlast doc) = DecodeError"
    unfolding doc_def using json_loads_cut_short by simp
  have "load_tasks (Some bs) = Loaded []"
    by (simp add: load_tasks_def dec nl st js Let_def)
  then show ?thesis
    unfolding t_def [symmetric] stored by simp
qed

end
